theory Spec2Isabelle
  imports Main "HOL-Library.Word"
begin

section \<open>The dispatcher of \<open>app.go\<close>\<close>

text \<open>
  The development follows \<open>src/app.go\<close>: the \<open>app\<close> struct, \<open>New\<close>, the closure that
  \<open>HandleFunc\<close> registers, and \<open>ServeHTTP\<close>. What a request does is recorded as a trace
  of events, together with the state of the \<open>app\<close> afterwards and the way the call ended.
\<close>

subsection \<open>Data model\<close>

type_synonym int64 = "64 word"

text \<open>
  The \<open>options\<close> struct is declared outside \<open>app.go\<close>; its fields and their types are the
  ones \<open>New\<close> and \<open>ServeHTTP\<close> use: \<open>concurrency\<close> is a Go \<open>int\<close> (compared with 0 and used
  as a channel size and a loop bound), \<open>readinessCascade\<close> is compared with the result of
  \<open>atomic.LoadInt64\<close> and so is an \<open>int64\<close>.
\<close>

record options =
  concurrency :: int
  readinessCascade :: int64
  readinessPath :: string
  livenessPath :: string
  metricsPath :: string

text \<open>Of a request the dispatcher reads \<open>req.URL.Path\<close> only.\<close>

record request =
  URL_Path :: string

text \<open>
  A buffered channel of \<open>struct{}\<close>: its capacity and the number of buffered elements.
  A send blocks when the buffer is full, a receive when it is empty; blocking is the
  value \<open>None\<close>.
\<close>

record chan =
  chan_cap :: nat
  chan_len :: nat

definition make_chan :: "int \<Rightarrow> chan" where
  "make_chan n = \<lparr>chan_cap = nat n, chan_len = 0\<rparr>"

definition chan_send :: "chan \<Rightarrow> chan option" where
  "chan_send c = (if chan_len c < chan_cap c then Some (c\<lparr>chan_len := chan_len c + 1\<rparr>) else None)"

definition chan_recv :: "chan \<Rightarrow> chan option" where
  "chan_recv c = (if 0 < chan_len c then Some (c\<lparr>chan_len := chan_len c - 1\<rparr>) else None)"

text \<open>
  A handler function of the application returns or panics; \<open>'c\<close> is the Context type
  \<open>T\<close> of the generic \<open>app[T]\<close>.
\<close>

datatype outcome = Returns | Panics

type_synonym 'c HandlerFunc = "'c \<Rightarrow> outcome"

text \<open>
  The \<open>app\<close> struct. \<open>cc\<close> is \<open>None\<close> for the nil channel. \<open>mux\<close> is the route table as
  \<open>http.ServeMux\<close> resolves it: the registered handler function that serves a path,
  \<open>None\<close> when \<open>ServeMux\<close> answers by itself (404 when no registered pattern matches,
  a redirect to the cleaned path otherwise); that answer is the event \<open>EvMuxOwn\<close>.
  The handlers \<open>hProm\<close> and \<open>hProf\<close> are fixed collaborators and appear as events; the
  tracing wrappers of \<open>otelhttp\<close> do not change the control flow and are left out.
\<close>

record 'c app =
  opts :: options
  cf :: "request \<Rightarrow> 'c"
  mux :: "string \<Rightarrow> 'c HandlerFunc option"
  cc :: "chan option"
  readinessFailed :: int64

subsection \<open>Events, results and deferred calls\<close>

text \<open>
  Modelled from the spec: \<open>respondInternal\<close> is not in \<open>app.go\<close>; it writes a plain-text
  body with an explicit status code, recorded as \<open>EvRespond body status\<close>.
\<close>

datatype event =
    EvCheck string
  | EvRespond string nat
  | EvProm
  | EvProf
  | EvMuxOwn
  | EvAcquire
  | EvDeferRelease
  | EvRelease
  | EvFactory
  | EvDeferPerform
  | EvInject
  | EvInvoke
  | EvPerform

datatype exit = Returned | Panicked | Blocked

record 's res =
  st :: 's
  tr :: "event list"
  ex :: exit

type_synonym 's action = "'s \<Rightarrow> 's res"

definition after :: "event list \<Rightarrow> 's res \<Rightarrow> 's res" where
  "after es r = r\<lparr>tr := es @ tr r\<rparr>"

text \<open>
  A Go function body as a list of statements: a call, or a \<open>defer\<close> of a call (with the
  event that records the scheduling). When the body returns or a call panics, the
  deferred calls run, last scheduled first; a call that blocks stops everything.
\<close>

datatype 's stmt = Do "'s action" | Defer event "'s action"

fun unwind :: "'s action list \<Rightarrow> exit \<Rightarrow> 's \<Rightarrow> 's res" where
  "unwind [] e s = \<lparr>st = s, tr = [], ex = e\<rparr>"
| "unwind (d # ds) e s =
     (let r = d s in
      case ex r of
        Returned \<Rightarrow> after (tr r) (unwind ds e (st r))
      | Panicked \<Rightarrow> after (tr r) (unwind ds Panicked (st r))
      | Blocked \<Rightarrow> r)"

fun exec :: "'s stmt list \<Rightarrow> 's action list \<Rightarrow> 's \<Rightarrow> 's res" where
  "exec [] ds s = unwind ds Returned s"
| "exec (Defer ev d # ss) ds s = after [ev] (exec ss (d # ds) s)"
| "exec (Do f # ss) ds s =
     (let r = f s in
      case ex r of
        Returned \<Rightarrow> after (tr r) (exec ss ds (st r))
      | Panicked \<Rightarrow> after (tr r) (unwind ds Panicked (st r))
      | Blocked \<Rightarrow> r)"

subsection \<open>Readiness (\<open>ServeHTTP\<close>, lines 66 to 94)\<close>

text \<open>
  \<open>Registry.Check\<close> is a collaborator: it calls the callback once for each registered
  check, with the check's name and its error (\<open>None\<close> for nil, \<open>Some m\<close> for an error
  whose \<open>Error()\<close> is \<open>m\<close>). What it reports during one request is a list.
\<close>

type_synonym check_report = "string \<times> string option"

definition nl :: string where
  "nl = [CHR 0x0A]"

definition http_StatusOK :: nat where
  "http_StatusOK = 200"

definition http_StatusInternalServerError :: nat where
  "http_StatusInternalServerError = 500"

text \<open>The callback of lines 70 to 82, on the builder \<open>sb\<close> and the flag \<open>failed\<close>.\<close>

definition check_cb :: "string \<times> bool \<Rightarrow> check_report \<Rightarrow> string \<times> bool" where
  "check_cb s r =
     (case s of (sb, failed) \<Rightarrow> case r of (name, err) \<Rightarrow>
        let sb1 = (if length sb > 0 then sb @ nl else sb);
            sb2 = sb1 @ name
        in (case err of
              None \<Rightarrow> (sb2 @ '': OK'', failed)
            | Some m \<Rightarrow> (sb2 @ '': '' @ m, True)))"

definition Check :: "check_report list \<Rightarrow> string \<times> bool \<Rightarrow> string \<times> bool" where
  "Check chk s = foldl check_cb s chk"

definition serveReadiness :: "'c app \<Rightarrow> check_report list \<Rightarrow> 'c app res" where
  "serveReadiness a chk =
     (case Check chk ([], False) of (sb, failed) \<Rightarrow>
        let sb' = (if length sb = 0 then ''OK'' else sb) in
        if failed
        then \<lparr>st = a\<lparr>readinessFailed := readinessFailed a + 1\<rparr>,
              tr = map (\<lambda>r. EvCheck (fst r)) chk @ [EvRespond sb' http_StatusInternalServerError],
              ex = Returned\<rparr>
        else \<lparr>st = a\<lparr>readinessFailed := 0\<rparr>,
              tr = map (\<lambda>r. EvCheck (fst r)) chk @ [EvRespond sb' http_StatusOK],
              ex = Returned\<rparr>)"

subsection \<open>Liveness (\<open>ServeHTTP\<close>, lines 95 to 101)\<close>

definition serveLiveness :: "'c app \<Rightarrow> 'c app res" where
  "serveLiveness a =
     (if 0 < sint (readinessCascade (opts a))
         \<and> sint (readinessCascade (opts a)) < sint (readinessFailed a)
      then \<lparr>st = a, tr = [EvRespond ''CASCADED'' http_StatusInternalServerError], ex = Returned\<rparr>
      else \<lparr>st = a, tr = [EvRespond ''OK'' http_StatusOK], ex = Returned\<rparr>)"

subsection \<open>Application routes (\<open>HandleFunc\<close>, and \<open>ServeHTTP\<close>, lines 113 to 121)\<close>

definition exit_of :: "outcome \<Rightarrow> exit" where
  "exit_of oc = (case oc of Returns \<Rightarrow> Returned | Panics \<Rightarrow> Panicked)"

text \<open>
  The calls on the Context: \<open>c.Perform()\<close>, \<open>a.Inject(c)\<close> and \<open>fn(c)\<close>. The factory,
  \<open>Inject\<close> and \<open>Perform\<close> are collaborators declared outside \<open>app.go\<close> and are taken to
  return; the handler function \<open>fn\<close> is the application's and returns or panics.
\<close>

definition call_Perform :: "'c \<Rightarrow> 'c app action" where
  "call_Perform c a = \<lparr>st = a, tr = [EvPerform], ex = Returned\<rparr>"

definition call_Inject :: "'c \<Rightarrow> 'c app action" where
  "call_Inject c a = \<lparr>st = a, tr = [EvInject], ex = Returned\<rparr>"

definition call_fn :: "'c HandlerFunc \<Rightarrow> 'c \<Rightarrow> 'c app action" where
  "call_fn fn c a = \<lparr>st = a, tr = [EvInvoke], ex = exit_of (fn c)\<rparr>"

text \<open>
  The handler that \<open>HandleFunc\<close> registers for \<open>fn\<close> (lines 52 to 59): the Context is
  made by the factory, then the inner function defers \<open>c.Perform()\<close>, injects and calls
  \<open>fn\<close>.
\<close>

definition HandleFunc_handler :: "'c HandlerFunc \<Rightarrow> request \<Rightarrow> 'c app action" where
  "HandleFunc_handler fn req a =
     (let c = cf a req in
      after [EvFactory]
        (exec [Defer EvDeferPerform (call_Perform c), Do (call_Inject c), Do (call_fn fn c)] [] a))"

text \<open>
  \<open>a.hMain.ServeHTTP\<close>: the route table dispatches to the registered handler, or
  \<open>ServeMux\<close> answers by itself.
\<close>

definition hMain :: "request \<Rightarrow> 'c app action" where
  "hMain req a =
     (case mux a (URL_Path req) of
        None \<Rightarrow> \<lparr>st = a, tr = [EvMuxOwn], ex = Returned\<rparr>
      | Some fn \<Rightarrow> HandleFunc_handler fn req a)"

text \<open>The receive \<open><-a.cc\<close> and the deferred send \<open>a.cc <- struct{}{}\<close>.\<close>

definition recv_cc :: "'c app action" where
  "recv_cc a =
     (case cc a of
        None \<Rightarrow> \<lparr>st = a, tr = [], ex = Blocked\<rparr>
      | Some ch \<Rightarrow>
          (case chan_recv ch of
             None \<Rightarrow> \<lparr>st = a, tr = [], ex = Blocked\<rparr>
           | Some ch' \<Rightarrow> \<lparr>st = a\<lparr>cc := Some ch'\<rparr>, tr = [EvAcquire], ex = Returned\<rparr>))"

definition send_cc :: "'c app action" where
  "send_cc a =
     (case cc a of
        None \<Rightarrow> \<lparr>st = a, tr = [], ex = Blocked\<rparr>
      | Some ch \<Rightarrow>
          (case chan_send ch of
             None \<Rightarrow> \<lparr>st = a, tr = [], ex = Blocked\<rparr>
           | Some ch' \<Rightarrow> \<lparr>st = a\<lparr>cc := Some ch'\<rparr>, tr = [EvRelease], ex = Returned\<rparr>))"

definition serveMain :: "request \<Rightarrow> 'c app action" where
  "serveMain req a =
     exec ((if cc a \<noteq> None then [Do recv_cc, Defer EvDeferRelease send_cc] else [])
           @ [Do (hMain req)]) [] a"

subsection \<open>\<open>ServeHTTP\<close>\<close>

definition HasPrefix :: "string \<Rightarrow> string \<Rightarrow> bool" where
  "HasPrefix s p = (length s \<ge> length p \<and> take (length p) s = p)"

definition ServeHTTP :: "'c app \<Rightarrow> check_report list \<Rightarrow> request \<Rightarrow> 'c app res" where
  "ServeHTTP a chk req =
     (if URL_Path req = readinessPath (opts a) then serveReadiness a chk
      else if URL_Path req = livenessPath (opts a) then serveLiveness a
      else if URL_Path req = metricsPath (opts a) then \<lparr>st = a, tr = [EvProm], ex = Returned\<rparr>
      else if HasPrefix (URL_Path req) ''/debug/'' then \<lparr>st = a, tr = [EvProf], ex = Returned\<rparr>
      else serveMain req a)"

subsection \<open>\<open>New\<close>\<close>

text \<open>The loop of lines 160 to 162; \<open>None\<close> when a send blocks.\<close>

function fill :: "int \<Rightarrow> int \<Rightarrow> chan \<Rightarrow> chan option" where
  "fill i n c =
     (if i < n
      then (case chan_send c of None \<Rightarrow> None | Some c' \<Rightarrow> fill (i + 1) n c')
      else Some c)"
  by pat_completeness auto
termination
  by (relation "measure (\<lambda>(i, n, c). nat (n - i))") auto

text \<open>
  \<open>New\<close>: the defaults, then the options applied in the order given (an \<open>Option\<close> updates
  the \<open>options\<close> struct in place), an empty route table, and the channel when
  \<open>concurrency > 0\<close>. The three default paths are constants declared outside \<open>app.go\<close>
  and are parameters here. The result is \<open>None\<close> when the filling loop blocks.
\<close>

definition New_opts :: "string \<Rightarrow> string \<Rightarrow> string \<Rightarrow> (options \<Rightarrow> options) list \<Rightarrow> options" where
  "New_opts DefaultReadinessPath DefaultLivenessPath DefaultMetricsPath os =
     foldl (\<lambda>cur opt. opt cur)
       \<lparr>concurrency = 128, readinessCascade = 5,
        readinessPath = DefaultReadinessPath, livenessPath = DefaultLivenessPath,
        metricsPath = DefaultMetricsPath\<rparr> os"

definition New ::
  "string \<Rightarrow> string \<Rightarrow> string \<Rightarrow> (request \<Rightarrow> 'c) \<Rightarrow> (options \<Rightarrow> options) list \<Rightarrow> 'c app option" where
  "New DefaultReadinessPath DefaultLivenessPath DefaultMetricsPath f os =
     (let os' = New_opts DefaultReadinessPath DefaultLivenessPath DefaultMetricsPath os;
          a = \<lparr>opts = os', cf = f, mux = (\<lambda>p. None), cc = None, readinessFailed = 0\<rparr>
      in if concurrency os' > 0
         then (case fill 0 (concurrency os') (make_chan (concurrency os')) of
                 None \<Rightarrow> None
               | Some ch \<Rightarrow> Some (a\<lparr>cc := Some ch\<rparr>))
         else Some a)"

subsection \<open>Requests one after another\<close>

text \<open>
  Consecutive requests, each served to its end before the next one starts: the state
  of the \<open>app\<close> is handed from one \<open>ServeHTTP\<close> to the next.
\<close>

fun serve_seq :: "'c app \<Rightarrow> (check_report list \<times> request) list \<Rightarrow> 'c app" where
  "serve_seq a [] = a"
| "serve_seq a (cr # rs) = serve_seq (st (ServeHTTP a (fst cr) (snd cr))) rs"

subsection \<open>Requests side by side\<close>

text \<open>
  Each request is served by a goroutine of its own. An application request passes
  three points where others can run in between: the receive from \<open>a.cc\<close>, the call of
  \<open>a.hMain\<close>, and the deferred send. A request to a reserved path, and an application
  request of an \<open>app\<close> without a channel, is one step. A step that would block is not
  taken (\<open>None\<close>).
\<close>

datatype pc = Entry | InMain | Exiting exit | Finished exit

record task =
  t_req :: request
  t_chk :: "check_report list"
  t_pc :: pc
  t_tr :: "event list"

definition to_main :: "options \<Rightarrow> string \<Rightarrow> bool" where
  "to_main os p =
     (p \<noteq> readinessPath os \<and> p \<noteq> livenessPath os \<and> p \<noteq> metricsPath os
      \<and> \<not> HasPrefix p ''/debug/'')"

definition task_step :: "'c app \<Rightarrow> task \<Rightarrow> ('c app \<times> task) option" where
  "task_step a t =
     (case t_pc t of
        Entry \<Rightarrow>
          if to_main (opts a) (URL_Path (t_req t)) \<and> cc a \<noteq> None
          then (let r = recv_cc a in
                if ex r = Blocked then None
                else Some (st r, t\<lparr>t_pc := InMain, t_tr := t_tr t @ tr r @ [EvDeferRelease]\<rparr>))
          else (let r = ServeHTTP a (t_chk t) (t_req t) in
                if ex r = Blocked then None
                else Some (st r, t\<lparr>t_pc := Finished (ex r), t_tr := t_tr t @ tr r\<rparr>))
      | InMain \<Rightarrow>
          (let r = hMain (t_req t) a in
           if ex r = Blocked then None
           else Some (st r, t\<lparr>t_pc := Exiting (ex r), t_tr := t_tr t @ tr r\<rparr>))
      | Exiting e \<Rightarrow>
          (let r = send_cc a in
           if ex r = Blocked then None
           else Some (st r, t\<lparr>t_pc := Finished e, t_tr := t_tr t @ tr r\<rparr>))
      | Finished e \<Rightarrow> None)"

text \<open>A schedule: a request arrives, or the task with the given index takes its next step.\<close>

datatype sched = Arrive request "check_report list" | Run nat

fun sys_step :: "'c app \<times> task list \<Rightarrow> sched \<Rightarrow> ('c app \<times> task list) option" where
  "sys_step (a, ts) (Arrive req chk) =
     Some (a, ts @ [\<lparr>t_req = req, t_chk = chk, t_pc = Entry, t_tr = []\<rparr>])"
| "sys_step (a, ts) (Run i) =
     (if i < length ts
      then (case task_step a (ts ! i) of
              None \<Rightarrow> None
            | Some (a', t') \<Rightarrow> Some (a', ts[i := t']))
      else None)"

fun sys_run :: "'c app \<times> task list \<Rightarrow> sched list \<Rightarrow> ('c app \<times> task list) option" where
  "sys_run s [] = Some s"
| "sys_run s (x # xs) = (case sys_step s x of None \<Rightarrow> None | Some s' \<Rightarrow> sys_run s' xs)"

text \<open>A task holds a permit between its receive and its deferred send.\<close>

definition holding :: "task \<Rightarrow> bool" where
  "holding t = (case t_pc t of InMain \<Rightarrow> True | Exiting e \<Rightarrow> True | _ \<Rightarrow> False)"

definition held :: "task list \<Rightarrow> nat" where
  "held ts = length (filter holding ts)"

text \<open>
  The permits in circulation: the channel exists with capacity \<open>n\<close>, and the permits
  in its buffer together with those held by tasks are \<open>n\<close>.
\<close>

definition gate_inv :: "nat \<Rightarrow> 'c app \<times> task list \<Rightarrow> bool" where
  "gate_inv n s =
     (case s of (a, ts) \<Rightarrow>
        (case cc a of
           None \<Rightarrow> False
         | Some ch \<Rightarrow> chan_cap ch = n \<and> chan_len ch + held ts = n))"

text \<open>What no step changes: the options, the routes, the factory, and whether a channel exists.\<close>

definition same_config :: "'c app \<Rightarrow> 'c app \<Rightarrow> bool" where
  "same_config a a' =
     (opts a' = opts a \<and> mux a' = mux a \<and> cf a' = cf a \<and> (cc a' = None) = (cc a = None))"

text \<open>
  What a task has done so far, by the point it has reached: the events of its own
  request, in the order in which \<open>ServeHTTP\<close> alone would produce them.
\<close>

definition task_inv :: "'c app \<Rightarrow> task \<Rightarrow> bool" where
  "task_inv a t =
     (let m = to_main (opts a) (URL_Path (t_req t)); h = hMain (t_req t) a in
      case t_pc t of
        Entry \<Rightarrow> t_tr t = []
      | InMain \<Rightarrow> m \<and> cc a \<noteq> None \<and> t_tr t = [EvAcquire, EvDeferRelease]
      | Exiting e \<Rightarrow>
          m \<and> cc a \<noteq> None \<and> t_tr t = [EvAcquire, EvDeferRelease] @ tr h \<and> e = ex h
      | Finished e \<Rightarrow>
          if m
          then t_tr t = (if cc a \<noteq> None
                         then [EvAcquire, EvDeferRelease] @ tr h @ [EvRelease]
                         else tr h)
               \<and> e = ex h
          else EvAcquire \<notin> set (t_tr t) \<and> EvRelease \<notin> set (t_tr t) \<and> e = Returned)"

definition tasks_inv :: "'c app \<times> task list \<Rightarrow> bool" where
  "tasks_inv s = (case s of (a, ts) \<Rightarrow> list_all (task_inv a) ts)"

subsection \<open>The specification's vocabulary\<close>

text \<open>
  The five destinations, and the resolution as the specification words it: the tests
  in their fixed order, the first that matches wins, the application route otherwise.
\<close>

datatype destination = Readiness | Liveness | Metrics | Profiling | Application

definition spec_resolve :: "options \<Rightarrow> string \<Rightarrow> destination" where
  "spec_resolve os p =
     (case find (\<lambda>td. fst td p)
             [(\<lambda>q. q = readinessPath os, Readiness),
              (\<lambda>q. q = livenessPath os, Liveness),
              (\<lambda>q. q = metricsPath os, Metrics),
              (\<lambda>q. HasPrefix q ''/debug/'', Profiling)] of
        Some td \<Rightarrow> snd td
      | None \<Rightarrow> Application)"

text \<open>The responses written by \<open>respondInternal\<close> during a request: body and status.\<close>

definition responses :: "'s res \<Rightarrow> (string \<times> nat) list" where
  "responses r = concat (map (\<lambda>e. case e of EvRespond b s \<Rightarrow> [(b, s)] | _ \<Rightarrow> []) (tr r))"

text \<open>The names of the checks invoked during a request, in order.\<close>

definition checks_invoked :: "'s res \<Rightarrow> string list" where
  "checks_invoked r = concat (map (\<lambda>e. case e of EvCheck n \<Rightarrow> [n] | _ \<Rightarrow> []) (tr r))"

text \<open>The readiness report as the specification words it: one line per check, joined by newlines.\<close>

definition report_line :: "check_report \<Rightarrow> string" where
  "report_line r =
     (case r of (name, err) \<Rightarrow> name @ '': '' @ (case err of None \<Rightarrow> ''OK'' | Some m \<Rightarrow> m))"

fun Join :: "string list \<Rightarrow> string \<Rightarrow> string" where
  "Join [] sep = []"
| "Join [x] sep = x"
| "Join (x # y # ys) sep = x @ sep @ Join (y # ys) sep"

definition readiness_body :: "check_report list \<Rightarrow> string" where
  "readiness_body chk = (if chk = [] then ''OK'' else Join (map report_line chk) nl)"

definition some_failed :: "check_report list \<Rightarrow> bool" where
  "some_failed chk = (\<exists>r\<in>set chk. snd r \<noteq> None)"

text \<open>The liveness answer as the specification words it, from the counter and the threshold.\<close>

definition liveness_response :: "int64 \<Rightarrow> int64 \<Rightarrow> string \<times> nat" where
  "liveness_response cascade failures =
     (if sint cascade > 0 \<and> sint failures > sint cascade then (''CASCADED'', 500) else (''OK'', 200))"

text \<open>\<open>x\<close> occurs in the trace, and no \<open>y\<close> occurs before its first occurrence.\<close>

definition precedes :: "event \<Rightarrow> event \<Rightarrow> event list \<Rightarrow> bool" where
  "precedes x y es = (x \<in> set es \<and> y \<notin> set (takeWhile (\<lambda>e. e \<noteq> x) es))"

text \<open>
  The Context lifecycle as the specification orders it, inside the admission gate when
  there is one: construct, schedule the finalize step, inject, invoke, finalize, and
  only then release the permit.
\<close>

definition lifecycle :: "bool \<Rightarrow> event list" where
  "lifecycle gated =
     (if gated then [EvAcquire, EvDeferRelease] else [])
     @ [EvFactory, EvDeferPerform, EvInject, EvInvoke, EvPerform]
     @ (if gated then [EvRelease] else [])"

subsection \<open>Example configurations\<close>

definition ex_opts :: options where
  "ex_opts = \<lparr>concurrency = 2, readinessCascade = 2, readinessPath = ''/readyz'',
              livenessPath = ''/livez'', metricsPath = ''/metrics''\<rparr>"

definition ex_mux :: "string \<Rightarrow> unit HandlerFunc option" where
  "ex_mux p = (if p = ''/hello'' then Some (\<lambda>c. Returns)
               else if p = ''/boom'' then Some (\<lambda>c. Panics) else None)"

definition ex_app :: "unit app" where
  "ex_app = \<lparr>opts = ex_opts, cf = (\<lambda>req. ()), mux = ex_mux,
             cc = Some \<lparr>chan_cap = 2, chan_len = 2\<rparr>, readinessFailed = 0\<rparr>"

text \<open>The same, with the readiness and the liveness path configured to one string.\<close>

definition same_path_app :: "unit app" where
  "same_path_app = ex_app\<lparr>opts := ex_opts\<lparr>readinessPath := ''/healthz'', livenessPath := ''/healthz''\<rparr>\<rparr>"

section \<open>Properties\<close>

subsection \<open>The readiness report\<close>

lemma report_line_nonempty: "report_line r \<noteq> []"
  by (cases r) (simp add: report_line_def)

lemma check_cb_eq:
  "check_cb (sb, f) r = ((if sb = [] then [] else sb @ nl) @ report_line r, f \<or> snd r \<noteq> None)"
  by (cases r) (auto simp: check_cb_def report_line_def Let_def split: option.splits)

lemma Join_Cons: "Join (x # xs) sep = x @ concat (map (\<lambda>y. sep @ y) xs)"
  by (induction xs arbitrary: x) auto

lemma Check_nonempty:
  "sb \<noteq> [] \<Longrightarrow> Check chk (sb, f) =
     (sb @ concat (map (\<lambda>r. nl @ report_line r) chk), f \<or> some_failed chk)"
proof (induction chk arbitrary: sb f)
  case Nil
  then show ?case by (simp add: Check_def some_failed_def)
next
  case (Cons r chk)
  have "Check (r # chk) (sb, f) = Check chk (sb @ nl @ report_line r, f \<or> snd r \<noteq> None)"
    using Cons.prems by (simp add: Check_def check_cb_eq)
  moreover have "sb @ nl @ report_line r \<noteq> []"
    using Cons.prems by simp
  ultimately show ?case
    using Cons.IH [of "sb @ nl @ report_line r" "f \<or> snd r \<noteq> None"]
    by (auto simp: some_failed_def)
qed

lemma Check_empty_builder:
  "Check chk ([], False) =
     (if chk = [] then [] else Join (map report_line chk) nl, some_failed chk)"
proof (cases chk)
  case Nil
  then show ?thesis by (simp add: Check_def some_failed_def)
next
  case (Cons r rs)
  have "Check (r # rs) ([], False) = Check rs (report_line r, snd r \<noteq> None)"
    by (simp add: Check_def check_cb_eq)
  then show ?thesis
    using Cons Check_nonempty [OF report_line_nonempty, of rs r "snd r \<noteq> None"]
    by (auto simp add: Join_Cons comp_def some_failed_def)
qed

lemma Join_nonempty: "xs \<noteq> [] \<Longrightarrow> (\<forall>x\<in>set xs. x \<noteq> []) \<Longrightarrow> Join xs sep \<noteq> []"
  by (cases xs) (auto simp: Join_Cons)

lemma serveReadiness_eq:
  "serveReadiness a chk =
     (if some_failed chk
      then \<lparr>st = a\<lparr>readinessFailed := readinessFailed a + 1\<rparr>,
            tr = map (\<lambda>r. EvCheck (fst r)) chk @ [EvRespond (readiness_body chk) 500],
            ex = Returned\<rparr>
      else \<lparr>st = a\<lparr>readinessFailed := 0\<rparr>,
            tr = map (\<lambda>r. EvCheck (fst r)) chk @ [EvRespond (readiness_body chk) 200],
            ex = Returned\<rparr>)"
proof -
  have ne: "chk \<noteq> [] \<Longrightarrow> Join (map report_line chk) nl \<noteq> []"
    by (rule Join_nonempty) (auto simp: report_line_nonempty)
  show ?thesis
    unfolding serveReadiness_def Check_empty_builder
    using ne
    by (simp add: readiness_body_def http_StatusOK_def http_StatusInternalServerError_def Let_def)
qed

lemma ServeHTTP_readiness:
  "URL_Path req = readinessPath (opts a) \<Longrightarrow> ServeHTTP a chk req = serveReadiness a chk"
  by (simp add: ServeHTTP_def)

lemma checks_invoked_prefix:
  "checks_invoked \<lparr>st = s, tr = map (\<lambda>r. EvCheck (fst r)) chk @ es, ex = e\<rparr>
     = map fst chk @ checks_invoked \<lparr>st = s, tr = es, ex = e\<rparr>"
  by (induction chk) (simp_all add: checks_invoked_def)

lemma responses_prefix:
  "responses \<lparr>st = s, tr = map (\<lambda>r. EvCheck (fst r)) chk @ es, ex = e\<rparr>
     = responses \<lparr>st = s, tr = es, ex = e\<rparr>"
  by (induction chk) (simp_all add: responses_def)

lemma serveReadiness_checks: "checks_invoked (serveReadiness a chk) = map fst chk"
  by (simp add: serveReadiness_eq checks_invoked_prefix) (simp add: checks_invoked_def)

lemma serveReadiness_responses:
  "responses (serveReadiness a chk) = [(readiness_body chk, if some_failed chk then 500 else 200)]"
  by (simp add: serveReadiness_eq responses_prefix) (simp add: responses_def)

lemma serveReadiness_counter:
  "readinessFailed (st (serveReadiness a chk)) = (if some_failed chk then readinessFailed a + 1 else 0)"
  by (simp add: serveReadiness_eq)

lemma serveReadiness_frame:
  "opts (st (serveReadiness a chk)) = opts a"
  "cc (st (serveReadiness a chk)) = cc a"
  "mux (st (serveReadiness a chk)) = mux a"
  "cf (st (serveReadiness a chk)) = cf a"
  "ex (serveReadiness a chk) = Returned"
  by (simp_all add: serveReadiness_eq)


subsection \<open>Application routes and the channel\<close>

lemma sint_succ: "sint (x::int64) < 2^63 - 1 \<Longrightarrow> sint (x + 1) = sint x + 1"
proof -
  assume a: "sint x < 2^63 - 1"
  have b: "- (2^63) \<le> sint x" using sint_ge [of x] by simp
  show ?thesis
    using a b by (simp add: sint_word_ariths signed_take_bit_int_eq_self)
qed

lemma HandleFunc_handler_eq:
  "HandleFunc_handler fn req a =
     \<lparr>st = a, tr = [EvFactory, EvDeferPerform, EvInject, EvInvoke, EvPerform],
      ex = exit_of (fn (cf a req))\<rparr>"
  by (cases "fn (cf a req)")
     (simp_all add: HandleFunc_handler_def call_Perform_def call_Inject_def call_fn_def
        after_def exit_of_def Let_def)

lemma hMain_st: "st (hMain req a) = a"
  by (simp add: hMain_def HandleFunc_handler_eq split: option.splits)

lemma hMain_ex:
  "ex (hMain req a) = (case mux a (URL_Path req) of None \<Rightarrow> Returned | Some fn \<Rightarrow> exit_of (fn (cf a req)))"
  by (simp add: hMain_def HandleFunc_handler_eq split: option.splits)

lemma hMain_not_Blocked: "ex (hMain req a) \<noteq> Blocked"
  by (simp add: hMain_ex exit_of_def split: option.splits outcome.splits)

lemma hMain_tr:
  "tr (hMain req a) =
     (case mux a (URL_Path req) of
        None \<Rightarrow> [EvMuxOwn]
      | Some fn \<Rightarrow> [EvFactory, EvDeferPerform, EvInject, EvInvoke, EvPerform])"
  by (simp add: hMain_def HandleFunc_handler_eq split: option.splits)

lemma serveMain_no_gate: "cc a = None \<Longrightarrow> serveMain req a = hMain req a"
proof -
  assume "cc a = None"
  then show ?thesis
    using hMain_not_Blocked [of req a] hMain_st [of req a]
    by (cases "ex (hMain req a)") (simp_all add: serveMain_def after_def)
qed

lemma serveMain_blocked:
  "cc a = Some ch \<Longrightarrow> chan_len ch = 0 \<Longrightarrow> serveMain req a = \<lparr>st = a, tr = [], ex = Blocked\<rparr>"
  by (simp add: serveMain_def recv_cc_def chan_recv_def)

lemma serveMain_gate:
  assumes "cc a = Some ch" "0 < chan_len ch" "chan_len ch \<le> chan_cap ch"
  shows "serveMain req a =
           \<lparr>st = a, tr = [EvAcquire, EvDeferRelease] @ tr (hMain req a) @ [EvRelease],
            ex = ex (hMain req a)\<rparr>"
proof -
  let ?a1 = "a\<lparr>cc := Some (ch\<lparr>chan_len := chan_len ch - Suc 0\<rparr>)\<rparr>"
  have r: "recv_cc a = \<lparr>st = ?a1, tr = [EvAcquire], ex = Returned\<rparr>"
    using assms by (simp add: recv_cc_def chan_recv_def)
  have s: "send_cc ?a1 = \<lparr>st = a, tr = [EvRelease], ex = Returned\<rparr>"
    using assms by (simp add: send_cc_def chan_send_def)
  have h: "\<And>x. tr (hMain req (a\<lparr>cc := x\<rparr>)) = tr (hMain req a)"
    "\<And>x. ex (hMain req (a\<lparr>cc := x\<rparr>)) = ex (hMain req a)"
    by (simp_all add: hMain_tr hMain_ex split: option.splits)
  show ?thesis
    using assms(1) hMain_not_Blocked [of req a]
    by (cases "ex (hMain req a)") (simp_all add: serveMain_def r s h hMain_st after_def Let_def)
qed

lemma ServeHTTP_main:
  "to_main (opts a) (URL_Path req) \<Longrightarrow> ServeHTTP a chk req = serveMain req a"
  by (simp add: ServeHTTP_def to_main_def)

lemma ServeHTTP_reserved_cases:
  "\<not> to_main (opts a) (URL_Path req) \<Longrightarrow>
     ServeHTTP a chk req = serveReadiness a chk
     \<or> ServeHTTP a chk req = serveLiveness a
     \<or> ServeHTTP a chk req = \<lparr>st = a, tr = [EvProm], ex = Returned\<rparr>
     \<or> ServeHTTP a chk req = \<lparr>st = a, tr = [EvProf], ex = Returned\<rparr>"
  by (auto simp add: ServeHTTP_def to_main_def)

lemma held_append_entry:
  "held (ts @ [\<lparr>t_req = req, t_chk = chk, t_pc = Entry, t_tr = es\<rparr>]) = held ts"
  by (simp add: held_def holding_def)

lemma held_update:
  "i < length ts \<Longrightarrow>
     held (ts[i := t]) + (if holding (ts ! i) then 1 else 0) = held ts + (if holding t then 1 else 0)"
proof (induction ts arbitrary: i)
  case Nil
  then show ?case by simp
next
  case (Cons x xs)
  show ?case
  proof (cases i)
    case 0
    then show ?thesis by (simp add: held_def)
  next
    case (Suc j)
    then have "j < length xs" using Cons.prems by simp
    from Cons.IH [OF this] show ?thesis using Suc by (simp add: held_def)
  qed
qed


subsection \<open>Liveness and consecutive readiness evaluations\<close>

lemma ServeHTTP_liveness:
  "URL_Path req = livenessPath (opts a) \<Longrightarrow> URL_Path req \<noteq> readinessPath (opts a) \<Longrightarrow>
     ServeHTTP a chk req = serveLiveness a"
  by (simp add: ServeHTTP_def)

lemma serveLiveness_st: "st (serveLiveness a) = a"
  by (simp add: serveLiveness_def)

lemma serveLiveness_ex: "ex (serveLiveness a) = Returned"
  by (simp add: serveLiveness_def)

lemma serveLiveness_responses:
  "responses (serveLiveness a) = [liveness_response (readinessCascade (opts a)) (readinessFailed a)]"
  by (simp add: serveLiveness_def responses_def liveness_response_def
        http_StatusOK_def http_StatusInternalServerError_def)

lemma serveLiveness_checks: "checks_invoked (serveLiveness a) = []"
  by (simp add: serveLiveness_def checks_invoked_def)

lemma serve_seq_readiness_opts:
  "\<forall>cr\<in>set rs. URL_Path (snd cr) = readinessPath (opts a) \<Longrightarrow> opts (serve_seq a rs) = opts a"
  by (induction rs arbitrary: a) (simp_all add: ServeHTTP_readiness serveReadiness_frame)

lemma serve_seq_snoc:
  "serve_seq a (rs @ [cr]) = st (ServeHTTP (serve_seq a rs) (fst cr) (snd cr))"
  by (induction rs arbitrary: a) simp_all

lemma serve_seq_failing:
  "\<forall>cr\<in>set rs. URL_Path (snd cr) = readinessPath (opts a) \<and> some_failed (fst cr) \<Longrightarrow>
     readinessFailed (serve_seq a rs) = readinessFailed a + of_nat (length rs)"
proof (induction rs arbitrary: a)
  case Nil
  then show ?case by simp
next
  case (Cons cr rs)
  let ?a1 = "st (ServeHTTP a (fst cr) (snd cr))"
  have 1: "opts ?a1 = opts a" "readinessFailed ?a1 = readinessFailed a + 1"
    using Cons.prems by (simp_all add: ServeHTTP_readiness serveReadiness_frame serveReadiness_counter)
  have "readinessFailed (serve_seq ?a1 rs) = readinessFailed ?a1 + of_nat (length rs)"
    using Cons.prems 1 by (intro Cons.IH) simp
  then show ?case using 1 by simp
qed

subsection \<open>Steps of a task\<close>

lemma serveReadiness_no_gate_events:
  "EvAcquire \<notin> set (tr (serveReadiness a chk))" "EvRelease \<notin> set (tr (serveReadiness a chk))"
  by (auto simp: serveReadiness_eq)

lemma serveLiveness_no_gate_events:
  "EvAcquire \<notin> set (tr (serveLiveness a))" "EvRelease \<notin> set (tr (serveLiveness a))"
  by (simp_all add: serveLiveness_def)

lemma reserved_frame:
  assumes "\<not> to_main (opts a) (URL_Path req)"
  shows "opts (st (ServeHTTP a chk req)) = opts a"
    and "mux (st (ServeHTTP a chk req)) = mux a"
    and "cf (st (ServeHTTP a chk req)) = cf a"
    and "cc (st (ServeHTTP a chk req)) = cc a"
    and "ex (ServeHTTP a chk req) = Returned"
    and "EvAcquire \<notin> set (tr (ServeHTTP a chk req))"
    and "EvRelease \<notin> set (tr (ServeHTTP a chk req))"
proof -
  consider "ServeHTTP a chk req = serveReadiness a chk"
    | "ServeHTTP a chk req = serveLiveness a"
    | "ServeHTTP a chk req = \<lparr>st = a, tr = [EvProm], ex = Returned\<rparr>"
    | "ServeHTTP a chk req = \<lparr>st = a, tr = [EvProf], ex = Returned\<rparr>"
    using ServeHTTP_reserved_cases [OF assms, of chk] by blast
  then have "opts (st (ServeHTTP a chk req)) = opts a
      \<and> mux (st (ServeHTTP a chk req)) = mux a
      \<and> cf (st (ServeHTTP a chk req)) = cf a
      \<and> cc (st (ServeHTTP a chk req)) = cc a
      \<and> ex (ServeHTTP a chk req) = Returned
      \<and> EvAcquire \<notin> set (tr (ServeHTTP a chk req))
      \<and> EvRelease \<notin> set (tr (ServeHTTP a chk req))"
  proof cases
    case 1
    then show ?thesis
      by (simp add: serveReadiness_frame serveReadiness_no_gate_events)
  next
    case 2
    then show ?thesis
      by (simp add: serveLiveness_st serveLiveness_ex serveLiveness_no_gate_events)
  next
    case 3
    then show ?thesis by simp
  next
    case 4
    then show ?thesis by simp
  qed
  then show "opts (st (ServeHTTP a chk req)) = opts a"
    and "mux (st (ServeHTTP a chk req)) = mux a"
    and "cf (st (ServeHTTP a chk req)) = cf a"
    and "cc (st (ServeHTTP a chk req)) = cc a"
    and "ex (ServeHTTP a chk req) = Returned"
    and "EvAcquire \<notin> set (tr (ServeHTTP a chk req))"
    and "EvRelease \<notin> set (tr (ServeHTTP a chk req))"
    by simp_all
qed

lemma hMain_same_config:
  "same_config a a' \<Longrightarrow> tr (hMain req a') = tr (hMain req a) \<and> ex (hMain req a') = ex (hMain req a)"
  by (simp add: same_config_def hMain_tr hMain_ex split: option.splits)

lemma same_config_refl: "same_config a a"
  by (simp add: same_config_def)

lemma recv_cc_cases:
  "ex (recv_cc a) \<noteq> Blocked \<Longrightarrow>
     \<exists>ch. cc a = Some ch \<and> 0 < chan_len ch
       \<and> recv_cc a = \<lparr>st = a\<lparr>cc := Some (ch\<lparr>chan_len := chan_len ch - 1\<rparr>)\<rparr>, tr = [EvAcquire], ex = Returned\<rparr>"
  by (auto simp: recv_cc_def chan_recv_def split: option.splits if_splits)

lemma send_cc_cases:
  "ex (send_cc a) \<noteq> Blocked \<Longrightarrow>
     \<exists>ch. cc a = Some ch \<and> chan_len ch < chan_cap ch
       \<and> send_cc a = \<lparr>st = a\<lparr>cc := Some (ch\<lparr>chan_len := chan_len ch + 1\<rparr>)\<rparr>, tr = [EvRelease], ex = Returned\<rparr>"
  by (auto simp: send_cc_def chan_send_def split: option.splits if_splits)

lemma task_step_Entry_gate:
  assumes "t_pc t = Entry" "to_main (opts a) (URL_Path (t_req t))" "cc a \<noteq> None"
    and "task_step a t = Some (a', t')"
  shows "\<exists>ch. cc a = Some ch \<and> 0 < chan_len ch
           \<and> a' = a\<lparr>cc := Some (ch\<lparr>chan_len := chan_len ch - 1\<rparr>)\<rparr>
           \<and> t' = t\<lparr>t_pc := InMain, t_tr := t_tr t @ [EvAcquire, EvDeferRelease]\<rparr>"
proof -
  have nb: "ex (recv_cc a) \<noteq> Blocked"
    using assms by (auto simp: task_step_def Let_def split: if_splits)
  from recv_cc_cases [OF nb] obtain ch where
    ch: "cc a = Some ch" "0 < chan_len ch"
      "recv_cc a = \<lparr>st = a\<lparr>cc := Some (ch\<lparr>chan_len := chan_len ch - 1\<rparr>)\<rparr>, tr = [EvAcquire], ex = Returned\<rparr>"
    by blast
  then show ?thesis
    using assms by (simp add: task_step_def Let_def)
qed

lemma task_step_Entry_direct:
  assumes "t_pc t = Entry" "\<not> (to_main (opts a) (URL_Path (t_req t)) \<and> cc a \<noteq> None)"
    and "task_step a t = Some (a', t')"
  shows "a' = st (ServeHTTP a (t_chk t) (t_req t))
           \<and> t' = t\<lparr>t_pc := Finished (ex (ServeHTTP a (t_chk t) (t_req t))),
                    t_tr := t_tr t @ tr (ServeHTTP a (t_chk t) (t_req t))\<rparr>"
  using assms by (auto simp: task_step_def Let_def split: if_splits)

lemma task_step_InMain:
  assumes "t_pc t = InMain" "task_step a t = Some (a', t')"
  shows "a' = a \<and> t' = t\<lparr>t_pc := Exiting (ex (hMain (t_req t) a)), t_tr := t_tr t @ tr (hMain (t_req t) a)\<rparr>"
  using assms by (auto simp: task_step_def Let_def hMain_st split: if_splits)

lemma task_step_Exiting:
  assumes "t_pc t = Exiting e" "task_step a t = Some (a', t')"
  shows "\<exists>ch. cc a = Some ch \<and> chan_len ch < chan_cap ch
           \<and> a' = a\<lparr>cc := Some (ch\<lparr>chan_len := chan_len ch + 1\<rparr>)\<rparr>
           \<and> t' = t\<lparr>t_pc := Finished e, t_tr := t_tr t @ [EvRelease]\<rparr>"
proof -
  have nb: "ex (send_cc a) \<noteq> Blocked"
    using assms by (auto simp: task_step_def Let_def split: if_splits)
  from send_cc_cases [OF nb] obtain ch where
    ch: "cc a = Some ch" "chan_len ch < chan_cap ch"
      "send_cc a = \<lparr>st = a\<lparr>cc := Some (ch\<lparr>chan_len := chan_len ch + 1\<rparr>)\<rparr>, tr = [EvRelease], ex = Returned\<rparr>"
    by blast
  then show ?thesis
    using assms by (simp add: task_step_def Let_def)
qed

lemma task_step_Finished: "t_pc t = Finished e \<Longrightarrow> task_step a t = None"
  by (simp add: task_step_def)

lemma task_step_same_config:
  assumes "task_step a t = Some (a', t')"
  shows "same_config a a'"
proof (cases "t_pc t")
  case Entry
  show ?thesis
  proof (cases "to_main (opts a) (URL_Path (t_req t)) \<and> cc a \<noteq> None")
    case True
    with task_step_Entry_gate [OF Entry _ _ assms] show ?thesis
      by (auto simp: same_config_def)
  next
    case False
    note d = task_step_Entry_direct [OF Entry False assms]
    show ?thesis
    proof (cases "to_main (opts a) (URL_Path (t_req t))")
      case True
      then have "cc a = None" using False by simp
      then show ?thesis
        using d True by (simp add: ServeHTTP_main serveMain_no_gate hMain_st same_config_def)
    next
      case False
      then show ?thesis
        using d by (simp add: reserved_frame same_config_def)
    qed
  qed
next
  case InMain
  with task_step_InMain [OF InMain assms] show ?thesis by (simp add: same_config_def)
next
  case (Exiting e)
  with task_step_Exiting [OF Exiting assms] show ?thesis by (auto simp: same_config_def)
next
  case (Finished e)
  with assms show ?thesis by (simp add: task_step_Finished)
qed

lemma task_inv_same_config:
  assumes "same_config a a'" "task_inv a t"
  shows "task_inv a' t"
proof -
  have h: "tr (hMain (t_req t) a') = tr (hMain (t_req t) a)"
    "ex (hMain (t_req t) a') = ex (hMain (t_req t) a)"
    using hMain_same_config [OF assms(1)] by simp_all
  have c: "opts a' = opts a" "(cc a' = None) = (cc a = None)"
    using assms(1) by (simp_all add: same_config_def)
  show ?thesis
    using assms(2) unfolding task_inv_def Let_def h c by simp
qed

lemma task_step_task_inv:
  assumes "task_step a t = Some (a', t')" "task_inv a t"
  shows "task_inv a' t'"
proof (cases "t_pc t")
  case Entry
  then have e: "t_tr t = []" using assms(2) by (simp add: task_inv_def Let_def)
  show ?thesis
  proof (cases "to_main (opts a) (URL_Path (t_req t)) \<and> cc a \<noteq> None")
    case True
    with task_step_Entry_gate [OF Entry _ _ assms(1)] e show ?thesis
      by (auto simp: task_inv_def Let_def)
  next
    case False
    note d = task_step_Entry_direct [OF Entry False assms(1)]
    show ?thesis
    proof (cases "to_main (opts a) (URL_Path (t_req t))")
      case True
      then have "cc a = None" using False by simp
      then show ?thesis
        using d True e
        by (simp add: ServeHTTP_main serveMain_no_gate hMain_st task_inv_def Let_def)
    next
      case False
      then show ?thesis
        using d e by (simp add: reserved_frame task_inv_def Let_def)
    qed
  qed
next
  case InMain
  with task_step_InMain [OF InMain assms(1)] assms(2) show ?thesis
    by (simp add: task_inv_def Let_def)
next
  case (Exiting e)
  from task_step_Exiting [OF Exiting assms(1)] obtain ch where
    ch: "cc a = Some ch" "t' = t\<lparr>t_pc := Finished e, t_tr := t_tr t @ [EvRelease]\<rparr>"
    by blast
  have "task_inv a t'"
    using assms(2) Exiting ch by (simp add: task_inv_def Let_def)
  with task_step_same_config [OF assms(1)] show ?thesis
    by (rule task_inv_same_config)
next
  case (Finished e)
  with assms show ?thesis by (simp add: task_step_Finished)
qed

lemma task_step_gate_inv:
  assumes "gate_inv n (a, ts)" "i < length ts" "task_step a (ts ! i) = Some (a', t')"
  shows "gate_inv n (a', ts[i := t'])"
proof -
  let ?t = "ts ! i"
  from assms(1) obtain ch0 where g: "cc a = Some ch0" "chan_cap ch0 = n" "chan_len ch0 + held ts = n"
    by (auto simp: gate_inv_def split: option.splits)
  note u = held_update [OF assms(2), of t']
  show ?thesis
  proof (cases "t_pc ?t")
    case Entry
    show ?thesis
    proof (cases "to_main (opts a) (URL_Path (t_req ?t))")
      case True
      with task_step_Entry_gate [OF Entry _ _ assms(3)] g u Entry show ?thesis
        by (auto simp: gate_inv_def holding_def)
    next
      case False
      with task_step_Entry_direct [OF Entry _ assms(3)] g u Entry show ?thesis
        by (auto simp: gate_inv_def holding_def reserved_frame)
    qed
  next
    case InMain
    with task_step_InMain [OF InMain assms(3)] g u show ?thesis
      by (auto simp: gate_inv_def holding_def)
  next
    case (Exiting e)
    with task_step_Exiting [OF Exiting assms(3)] g u show ?thesis
      by (auto simp: gate_inv_def holding_def)
  next
    case (Finished e)
    with assms(3) show ?thesis by (simp add: task_step_Finished)
  qed
qed

lemma held_pos: "t \<in> set ts \<Longrightarrow> holding t \<Longrightarrow> 0 < held ts"
  by (auto simp: held_def filter_empty_conv)

lemma release_enabled:
  assumes "gate_inv n (a, ts)" "t \<in> set ts" "t_pc t = Exiting e"
  shows "\<exists>a'. task_step a t = Some (a', t\<lparr>t_pc := Finished e, t_tr := t_tr t @ [EvRelease]\<rparr>)"
proof -
  from assms(1) obtain ch where g: "cc a = Some ch" "chan_cap ch = n" "chan_len ch + held ts = n"
    by (auto simp: gate_inv_def split: option.splits)
  have "holding t" using assms(3) by (simp add: holding_def)
  then have "0 < held ts" using assms(2) by (rule held_pos [rotated])
  then have "chan_len ch < chan_cap ch" using g by simp
  then show ?thesis
    using g assms(3) by (simp add: task_step_def send_cc_def chan_send_def)
qed


subsection \<open>Readiness: status, counter and report\<close>

text \<open>
  C2. A request to the readiness path invokes the registered checks. If at least one
  check reported an error, the status is 500 and the Failure Counter is incremented by
  exactly 1 (an \<open>int64\<close> addition; below the largest \<open>int64\<close> the signed value grows by 1).
  If every check reported nil, the status is 200 and the counter is set to 0, whatever
  it was. The status is 500 exactly when some check failed.
\<close>

theorem readiness_status_and_counter:
  "URL_Path req = readinessPath (opts a) \<Longrightarrow>
     checks_invoked (ServeHTTP a chk req) = map fst chk
     \<and> (some_failed chk \<longrightarrow>
          map snd (responses (ServeHTTP a chk req)) = [500]
          \<and> readinessFailed (st (ServeHTTP a chk req)) = readinessFailed a + 1)
     \<and> (some_failed chk \<and> sint (readinessFailed a) < 2 ^ 63 - 1 \<longrightarrow>
          sint (readinessFailed (st (ServeHTTP a chk req))) = sint (readinessFailed a) + 1)
     \<and> (\<not> some_failed chk \<longrightarrow>
          map snd (responses (ServeHTTP a chk req)) = [200]
          \<and> readinessFailed (st (ServeHTTP a chk req)) = 0)
     \<and> (map snd (responses (ServeHTTP a chk req)) = [500] \<longleftrightarrow> some_failed chk)"
  by (simp add: ServeHTTP_readiness serveReadiness_checks serveReadiness_responses
        serveReadiness_counter sint_succ)

theorem readiness_status_and_counter_witness:
  "URL_Path \<lparr>URL_Path = ''/readyz''\<rparr> = readinessPath (opts ex_app)
   \<and> some_failed [(''cache'', None), (''db'', Some ''down'')]
   \<and> sint (readinessFailed (ex_app\<lparr>readinessFailed := 7\<rparr>)) < 2 ^ 63 - 1
   \<and> checks_invoked (ServeHTTP (ex_app\<lparr>readinessFailed := 7\<rparr>)
         [(''cache'', None), (''db'', Some ''down'')] \<lparr>URL_Path = ''/readyz''\<rparr>) = [''cache'', ''db'']
   \<and> map snd (responses (ServeHTTP (ex_app\<lparr>readinessFailed := 7\<rparr>)
         [(''cache'', None), (''db'', Some ''down'')] \<lparr>URL_Path = ''/readyz''\<rparr>)) = [500]
   \<and> readinessFailed (st (ServeHTTP (ex_app\<lparr>readinessFailed := 7\<rparr>)
         [(''cache'', None), (''db'', Some ''down'')] \<lparr>URL_Path = ''/readyz''\<rparr>)) = 8
   \<and> \<not> some_failed [(''cache'', None), (''db'', None)]
   \<and> map snd (responses (ServeHTTP (ex_app\<lparr>readinessFailed := 7\<rparr>)
         [(''cache'', None), (''db'', None)] \<lparr>URL_Path = ''/readyz''\<rparr>)) = [200]
   \<and> readinessFailed (st (ServeHTTP (ex_app\<lparr>readinessFailed := 7\<rparr>)
         [(''cache'', None), (''db'', None)] \<lparr>URL_Path = ''/readyz''\<rparr>)) = 0"
  using
    readiness_status_and_counter [of "\<lparr>URL_Path = ''/readyz''\<rparr>"
      "ex_app\<lparr>readinessFailed := 7\<rparr>" "[(''cache'', None), (''db'', Some ''down'')]"]
    readiness_status_and_counter [of "\<lparr>URL_Path = ''/readyz''\<rparr>"
      "ex_app\<lparr>readinessFailed := 7\<rparr>" "[(''cache'', None), (''db'', None)]"]
  by (simp add: ex_app_def ex_opts_def some_failed_def)

text \<open>
  C6. The body of a readiness response is the newline-join, with no trailing newline,
  of one line per invoked check, \<open>name: OK\<close> for nil and \<open>name: error\<close> otherwise, and it
  is the literal \<open>OK\<close> when no check is registered. With two checks, one reporting nil
  and one reporting the error \<open>db: timeout\<close>, the body is the two lines and the status
  is 500, in either order of the checks.
\<close>

theorem readiness_report_body:
  "URL_Path req = readinessPath (opts a) \<Longrightarrow>
     map fst (responses (ServeHTTP a chk req)) = [readiness_body chk]
     \<and> (chk = [(nameA, None), (nameB, Some ''db: timeout'')] \<longrightarrow>
          responses (ServeHTTP a chk req)
            = [(nameA @ '': OK'' @ nl @ nameB @ '': db: timeout'', 500)])
     \<and> (chk = [(nameB, Some ''db: timeout''), (nameA, None)] \<longrightarrow>
          responses (ServeHTTP a chk req)
            = [(nameB @ '': db: timeout'' @ nl @ nameA @ '': OK'', 500)])"
  by (simp add: ServeHTTP_readiness serveReadiness_responses readiness_body_def
        report_line_def some_failed_def)

theorem readiness_report_body_witness:
  "URL_Path \<lparr>URL_Path = ''/readyz''\<rparr> = readinessPath (opts ex_app)
   \<and> map fst (responses (ServeHTTP ex_app [] \<lparr>URL_Path = ''/readyz''\<rparr>)) = [''OK'']
   \<and> responses (ServeHTTP ex_app [(''cache'', None), (''db'', Some ''db: timeout'')]
         \<lparr>URL_Path = ''/readyz''\<rparr>)
       = [(''cache: OK'' @ nl @ ''db: db: timeout'', 500)]
   \<and> responses (ServeHTTP ex_app [(''db'', Some ''db: timeout''), (''cache'', None)]
         \<lparr>URL_Path = ''/readyz''\<rparr>)
       = [(''db: db: timeout'' @ nl @ ''cache: OK'', 500)]"
  using
    readiness_report_body [of "\<lparr>URL_Path = ''/readyz''\<rparr>" ex_app "[]" "''cache''" "''db''"]
    readiness_report_body [of "\<lparr>URL_Path = ''/readyz''\<rparr>" ex_app
      "[(''cache'', None), (''db'', Some ''db: timeout'')]" "''cache''" "''db''"]
    readiness_report_body [of "\<lparr>URL_Path = ''/readyz''\<rparr>" ex_app
      "[(''db'', Some ''db: timeout''), (''cache'', None)]" "''cache''" "''db''"]
  by (simp add: ex_app_def ex_opts_def readiness_body_def)

text \<open>
  C9. N consecutive readiness evaluations in which every check passes, for any N of at
  least 1 and from any value of the Failure Counter, leave the counter at 0.
\<close>

theorem passing_readiness_resets:
  "1 \<le> length rs \<Longrightarrow>
   \<forall>cr\<in>set rs. URL_Path (snd cr) = readinessPath (opts a) \<and> \<not> some_failed (fst cr) \<Longrightarrow>
   readinessFailed (serve_seq a rs) = 0"
proof (cases rs rule: rev_cases)
  case Nil
  assume "1 \<le> length rs"
  with Nil show ?thesis by simp
next
  case (snoc rs' cr)
  assume all: "\<forall>cr\<in>set rs. URL_Path (snd cr) = readinessPath (opts a) \<and> \<not> some_failed (fst cr)"
  have "opts (serve_seq a rs') = opts a"
    using all snoc by (intro serve_seq_readiness_opts) simp
  then have "URL_Path (snd cr) = readinessPath (opts (serve_seq a rs'))"
    using all snoc by simp
  moreover have "\<not> some_failed (fst cr)"
    using all snoc by simp
  ultimately show ?thesis
    using snoc by (simp add: serve_seq_snoc ServeHTTP_readiness serveReadiness_counter)
qed

theorem passing_readiness_resets_witness:
  "1 \<le> length [([(''db'', None)], \<lparr>URL_Path = ''/readyz''\<rparr>), ([], \<lparr>URL_Path = ''/readyz''\<rparr>),
                 ([(''db'', None), (''cache'', None)], \<lparr>URL_Path = ''/readyz''\<rparr>)]
   \<and> readinessFailed (ex_app\<lparr>readinessFailed := 41\<rparr>) = 41
   \<and> readinessFailed (serve_seq (ex_app\<lparr>readinessFailed := 41\<rparr>)
        [([(''db'', None)], \<lparr>URL_Path = ''/readyz''\<rparr>), ([], \<lparr>URL_Path = ''/readyz''\<rparr>),
         ([(''db'', None), (''cache'', None)], \<lparr>URL_Path = ''/readyz''\<rparr>)]) = 0"
  using passing_readiness_resets [of
      "[([(''db'', None)], \<lparr>URL_Path = ''/readyz''\<rparr>), ([], \<lparr>URL_Path = ''/readyz''\<rparr>),
        ([(''db'', None), (''cache'', None)], \<lparr>URL_Path = ''/readyz''\<rparr>)]"
      "ex_app\<lparr>readinessFailed := 41\<rparr>"]
  by (simp add: ex_app_def ex_opts_def some_failed_def)


subsection \<open>Liveness\<close>

text \<open>
  C3, as stated, fails when the liveness path is also the readiness path: the request
  is then a readiness evaluation (see C1), and with a failing check the answer is 500
  with the report as its body, although the cascade condition does not hold.
\<close>

theorem liveness_same_path_counterexample:
  "URL_Path \<lparr>URL_Path = ''/healthz''\<rparr> = livenessPath (opts same_path_app)
   \<and> \<not> (0 < sint (readinessCascade (opts same_path_app))
         \<and> sint (readinessCascade (opts same_path_app)) < sint (readinessFailed same_path_app))
   \<and> responses (ServeHTTP same_path_app [(''db'', Some ''down'')] \<lparr>URL_Path = ''/healthz''\<rparr>)
       = [(''db: down'', 500)]
   \<and> responses (ServeHTTP same_path_app [(''db'', Some ''down'')] \<lparr>URL_Path = ''/healthz''\<rparr>)
       \<noteq> [(''OK'', 200)]"
  by (simp add: same_path_app_def ex_app_def ex_opts_def ServeHTTP_readiness
        serveReadiness_responses readiness_body_def report_line_def some_failed_def)

text \<open>
  C3, amended. A request to the liveness path that is not also the readiness path is
  answered 500 \<open>CASCADED\<close> exactly when \<open>readinessCascade > 0\<close> and the Failure Counter is
  strictly greater than \<open>readinessCascade\<close>, and 200 \<open>OK\<close> otherwise. With
  \<open>readinessCascade = 2\<close> and the counter at 0, after two consecutive failing readiness
  evaluations the answer is still 200 \<open>OK\<close>, after a third it is 500 \<open>CASCADED\<close>.
\<close>

theorem liveness_cascade_rule:
  "URL_Path req = livenessPath (opts a) \<Longrightarrow> URL_Path req \<noteq> readinessPath (opts a) \<Longrightarrow>
     (responses (ServeHTTP a chk req) = [(''CASCADED'', 500)]
        \<longleftrightarrow> 0 < sint (readinessCascade (opts a))
            \<and> sint (readinessCascade (opts a)) < sint (readinessFailed a))
     \<and> (responses (ServeHTTP a chk req) \<noteq> [(''CASCADED'', 500)]
        \<longrightarrow> responses (ServeHTTP a chk req) = [(''OK'', 200)])
     \<and> (readinessCascade (opts a) = 2 \<and> readinessFailed a = 0
         \<and> URL_Path rreq = readinessPath (opts a)
         \<and> some_failed f1 \<and> some_failed f2 \<and> some_failed f3
        \<longrightarrow> responses (ServeHTTP (serve_seq a [(f1, rreq), (f2, rreq)]) chk req) = [(''OK'', 200)]
            \<and> responses (ServeHTTP (serve_seq a [(f1, rreq), (f2, rreq), (f3, rreq)]) chk req)
                = [(''CASCADED'', 500)])"
proof (intro conjI impI)
  assume p: "URL_Path req = livenessPath (opts a)" "URL_Path req \<noteq> readinessPath (opts a)"
  show "(responses (ServeHTTP a chk req) = [(''CASCADED'', 500)])
        = (0 < sint (readinessCascade (opts a))
            \<and> sint (readinessCascade (opts a)) < sint (readinessFailed a))"
    using p by (auto simp add: ServeHTTP_liveness serveLiveness_responses liveness_response_def)
  show "responses (ServeHTTP a chk req) = [(''OK'', 200)]"
    if "responses (ServeHTTP a chk req) \<noteq> [(''CASCADED'', 500)]"
    using p that by (auto simp add: ServeHTTP_liveness serveLiveness_responses liveness_response_def)
next
  assume p: "URL_Path req = livenessPath (opts a)" "URL_Path req \<noteq> readinessPath (opts a)"
    and s: "readinessCascade (opts a) = 2 \<and> readinessFailed a = 0
         \<and> URL_Path rreq = readinessPath (opts a)
         \<and> some_failed f1 \<and> some_failed f2 \<and> some_failed f3"
  let ?a2 = "serve_seq a [(f1, rreq), (f2, rreq)]"
  let ?a3 = "serve_seq a [(f1, rreq), (f2, rreq), (f3, rreq)]"
  have o2: "opts ?a2 = opts a" and o3: "opts ?a3 = opts a"
    using s by (simp_all add: ServeHTTP_readiness serveReadiness_frame)
  have c2: "readinessFailed ?a2 = 2"
    using s serve_seq_failing [of "[(f1, rreq), (f2, rreq)]" a] by simp
  have c3: "readinessFailed ?a3 = 3"
    using s serve_seq_failing [of "[(f1, rreq), (f2, rreq), (f3, rreq)]" a] by simp
  show "responses (ServeHTTP ?a2 chk req) = [(''OK'', 200)]"
    using p s o2 c2
    by (simp add: ServeHTTP_liveness serveLiveness_responses liveness_response_def
          del: serve_seq.simps)
  show "responses (ServeHTTP ?a3 chk req) = [(''CASCADED'', 500)]"
    using p s o3 c3
    by (simp add: ServeHTTP_liveness serveLiveness_responses liveness_response_def
          del: serve_seq.simps)
qed


theorem liveness_cascade_rule_witness:
  "URL_Path \<lparr>URL_Path = ''/livez''\<rparr> = livenessPath (opts ex_app)
   \<and> URL_Path \<lparr>URL_Path = ''/livez''\<rparr> \<noteq> readinessPath (opts ex_app)
   \<and> readinessCascade (opts ex_app) = 2 \<and> readinessFailed ex_app = 0
   \<and> URL_Path \<lparr>URL_Path = ''/readyz''\<rparr> = readinessPath (opts ex_app)
   \<and> some_failed [(''db'', Some ''down'')]
   \<and> responses (ServeHTTP ex_app [] \<lparr>URL_Path = ''/livez''\<rparr>) = [(''OK'', 200)]
   \<and> responses (ServeHTTP
         (serve_seq ex_app [([(''db'', Some ''down'')], \<lparr>URL_Path = ''/readyz''\<rparr>),
                            ([(''db'', Some ''down'')], \<lparr>URL_Path = ''/readyz''\<rparr>)])
         [] \<lparr>URL_Path = ''/livez''\<rparr>) = [(''OK'', 200)]
   \<and> responses (ServeHTTP
         (serve_seq ex_app [([(''db'', Some ''down'')], \<lparr>URL_Path = ''/readyz''\<rparr>),
                            ([(''db'', Some ''down'')], \<lparr>URL_Path = ''/readyz''\<rparr>),
                            ([(''db'', Some ''down'')], \<lparr>URL_Path = ''/readyz''\<rparr>)])
         [] \<lparr>URL_Path = ''/livez''\<rparr>) = [(''CASCADED'', 500)]"
proof -
  have h: "URL_Path \<lparr>URL_Path = ''/livez''\<rparr> = livenessPath (opts ex_app)"
    "URL_Path \<lparr>URL_Path = ''/livez''\<rparr> \<noteq> readinessPath (opts ex_app)"
    "readinessCascade (opts ex_app) = 2" "readinessFailed ex_app = 0"
    "URL_Path \<lparr>URL_Path = ''/readyz''\<rparr> = readinessPath (opts ex_app)"
    "some_failed [(''db'', Some ''down'')]"
    by (simp_all add: ex_app_def ex_opts_def some_failed_def)
  show ?thesis
    using h liveness_cascade_rule [OF h(1) h(2), of "[]" "\<lparr>URL_Path = ''/readyz''\<rparr>"
        "[(''db'', Some ''down'')]" "[(''db'', Some ''down'')]" "[(''db'', Some ''down'')]"]
    by (simp del: serve_seq.simps)
qed


text \<open>
  C8, as stated, fails when the liveness path is also the readiness path: the request
  invokes the checks and changes the counter.
\<close>

theorem liveness_checks_same_path_counterexample:
  "URL_Path \<lparr>URL_Path = ''/healthz''\<rparr> = livenessPath (opts same_path_app)
   \<and> checks_invoked (ServeHTTP same_path_app [(''db'', Some ''down'')] \<lparr>URL_Path = ''/healthz''\<rparr>)
       = [''db'']
   \<and> readinessFailed same_path_app = 0
   \<and> readinessFailed (st (ServeHTTP same_path_app [(''db'', Some ''down'')]
         \<lparr>URL_Path = ''/healthz''\<rparr>)) = 1"
  by (simp add: same_path_app_def ex_app_def ex_opts_def ServeHTTP_readiness
        serveReadiness_checks serveReadiness_counter some_failed_def)


text \<open>
  C8, amended. A request to the liveness path that is not also the readiness path
  invokes no health check and leaves the \<open>app\<close>, the Failure Counter in it, unchanged;
  the answer is a function of the counter and of \<open>readinessCascade\<close> alone.
\<close>

theorem liveness_pure_read:
  "URL_Path req = livenessPath (opts a) \<Longrightarrow> URL_Path req \<noteq> readinessPath (opts a) \<Longrightarrow>
     checks_invoked (ServeHTTP a chk req) = []
     \<and> st (ServeHTTP a chk req) = a
     \<and> readinessFailed (st (ServeHTTP a chk req)) = readinessFailed a
     \<and> responses (ServeHTTP a chk req)
         = [liveness_response (readinessCascade (opts a)) (readinessFailed a)]"
  by (simp add: ServeHTTP_liveness serveLiveness_checks serveLiveness_st serveLiveness_responses)

theorem liveness_pure_read_witness:
  "URL_Path \<lparr>URL_Path = ''/livez''\<rparr> = livenessPath (opts ex_app)
   \<and> URL_Path \<lparr>URL_Path = ''/livez''\<rparr> \<noteq> readinessPath (opts ex_app)
   \<and> checks_invoked (ServeHTTP ex_app [(''db'', Some ''down'')] \<lparr>URL_Path = ''/livez''\<rparr>) = []
   \<and> st (ServeHTTP ex_app [(''db'', Some ''down'')] \<lparr>URL_Path = ''/livez''\<rparr>) = ex_app
   \<and> responses (ServeHTTP ex_app [(''db'', Some ''down'')] \<lparr>URL_Path = ''/livez''\<rparr>)
       = [(''OK'', 200)]"
proof -
  have h: "URL_Path \<lparr>URL_Path = ''/livez''\<rparr> = livenessPath (opts ex_app)"
    "URL_Path \<lparr>URL_Path = ''/livez''\<rparr> \<noteq> readinessPath (opts ex_app)"
    by (simp_all add: ex_app_def ex_opts_def)
  have "liveness_response (readinessCascade (opts ex_app)) (readinessFailed ex_app) = (''OK'', 200)"
    by (simp add: ex_app_def ex_opts_def liveness_response_def)
  then show ?thesis
    using h liveness_pure_read [OF h, of "[(''db'', Some ''down'')]"] by simp
qed


subsection \<open>Routing\<close>

text \<open>
  C1. \<open>ServeHTTP\<close> handles a request as the one destination that the specification's
  ordered tests select: readiness path, liveness path, metrics path (each by equality),
  the prefix \<open>/debug/\<close>, the application routes otherwise, the first match winning. When
  the readiness and the liveness path are the same string, a request to it is a
  readiness evaluation.
\<close>

theorem dispatch_order:
  "ServeHTTP a chk req =
     (case spec_resolve (opts a) (URL_Path req) of
        Readiness \<Rightarrow> serveReadiness a chk
      | Liveness \<Rightarrow> serveLiveness a
      | Metrics \<Rightarrow> \<lparr>st = a, tr = [EvProm], ex = Returned\<rparr>
      | Profiling \<Rightarrow> \<lparr>st = a, tr = [EvProf], ex = Returned\<rparr>
      | Application \<Rightarrow> serveMain req a)
   \<and> (readinessPath (opts a) = livenessPath (opts a) \<and> URL_Path req = livenessPath (opts a)
        \<longrightarrow> spec_resolve (opts a) (URL_Path req) = Readiness
            \<and> ServeHTTP a chk req = serveReadiness a chk)"
proof -
  let ?p = "URL_Path req" and ?os = "opts a"
  consider (ready) "?p = readinessPath ?os"
    | (live) "?p \<noteq> readinessPath ?os" "?p = livenessPath ?os"
    | (prom) "?p \<noteq> readinessPath ?os" "?p \<noteq> livenessPath ?os" "?p = metricsPath ?os"
    | (prof) "?p \<noteq> readinessPath ?os" "?p \<noteq> livenessPath ?os" "?p \<noteq> metricsPath ?os"
        "HasPrefix ?p ''/debug/''"
    | (main) "to_main ?os ?p"
    unfolding to_main_def by blast
  then show ?thesis
  proof cases
    case ready
    then have "spec_resolve ?os ?p = Readiness" by (simp add: spec_resolve_def)
    with ready show ?thesis by (auto simp: ServeHTTP_readiness)
  next
    case live
    then have "spec_resolve ?os ?p = Liveness" by (simp add: spec_resolve_def)
    with live show ?thesis by (auto simp: ServeHTTP_liveness)
  next
    case prom
    then have "spec_resolve ?os ?p = Metrics" by (simp add: spec_resolve_def)
    with prom show ?thesis by (auto simp: ServeHTTP_def)
  next
    case prof
    then have "spec_resolve ?os ?p = Profiling" by (simp add: spec_resolve_def)
    with prof show ?thesis by (auto simp: ServeHTTP_def)
  next
    case main
    then have "spec_resolve ?os ?p = Application" by (simp add: spec_resolve_def to_main_def)
    with main show ?thesis by (auto simp: ServeHTTP_main to_main_def)
  qed
qed

theorem dispatch_order_witness:
  "readinessPath (opts same_path_app) = livenessPath (opts same_path_app)
   \<and> URL_Path \<lparr>URL_Path = ''/healthz''\<rparr> = livenessPath (opts same_path_app)
   \<and> spec_resolve (opts same_path_app) ''/healthz'' = Readiness
   \<and> ServeHTTP same_path_app [(''db'', Some ''down'')] \<lparr>URL_Path = ''/healthz''\<rparr>
       = serveReadiness same_path_app [(''db'', Some ''down'')]
   \<and> spec_resolve (opts ex_app) ''/livez'' = Liveness
   \<and> ServeHTTP ex_app [] \<lparr>URL_Path = ''/livez''\<rparr> = serveLiveness ex_app
   \<and> spec_resolve (opts ex_app) ''/metrics'' = Metrics
   \<and> tr (ServeHTTP ex_app [] \<lparr>URL_Path = ''/metrics''\<rparr>) = [EvProm]
   \<and> spec_resolve (opts ex_app) ''/debug/pprof/'' = Profiling
   \<and> tr (ServeHTTP ex_app [] \<lparr>URL_Path = ''/debug/pprof/''\<rparr>) = [EvProf]
   \<and> spec_resolve (opts ex_app) ''/hello'' = Application
   \<and> ServeHTTP ex_app [] \<lparr>URL_Path = ''/hello''\<rparr> = serveMain \<lparr>URL_Path = ''/hello''\<rparr> ex_app"
proof -
  have r: "spec_resolve (opts same_path_app) ''/healthz'' = Readiness"
    "spec_resolve (opts ex_app) ''/livez'' = Liveness"
    "spec_resolve (opts ex_app) ''/metrics'' = Metrics"
    "spec_resolve (opts ex_app) ''/debug/pprof/'' = Profiling"
    "spec_resolve (opts ex_app) ''/hello'' = Application"
    by (simp_all add: spec_resolve_def same_path_app_def ex_app_def ex_opts_def HasPrefix_def)
  have p: "readinessPath (opts same_path_app) = livenessPath (opts same_path_app)"
    "URL_Path \<lparr>URL_Path = ''/healthz''\<rparr> = livenessPath (opts same_path_app)"
    by (simp_all add: same_path_app_def ex_app_def ex_opts_def)
  show ?thesis
    using r p
      dispatch_order [of same_path_app "[(''db'', Some ''down'')]" "\<lparr>URL_Path = ''/healthz''\<rparr>"]
      dispatch_order [of ex_app "[]" "\<lparr>URL_Path = ''/livez''\<rparr>"]
      dispatch_order [of ex_app "[]" "\<lparr>URL_Path = ''/metrics''\<rparr>"]
      dispatch_order [of ex_app "[]" "\<lparr>URL_Path = ''/debug/pprof/''\<rparr>"]
      dispatch_order [of ex_app "[]" "\<lparr>URL_Path = ''/hello''\<rparr>"]
    by simp
qed


subsection \<open>Runs of the system\<close>

lemma sys_step_same_config:
  "sys_step s x = Some s' \<Longrightarrow> same_config (fst s) (fst s')"
proof (cases s; cases x)
  fix a ts req chk
  assume "s = (a, ts)" "x = Arrive req chk" "sys_step s x = Some s'"
  then show ?thesis by (auto simp: same_config_refl)
next
  fix a ts i
  assume "s = (a, ts)" "x = Run i" "sys_step s x = Some s'"
  then show ?thesis
    by (auto simp: task_step_same_config split: if_splits option.splits)
qed

lemma sys_step_tasks_inv:
  assumes "sys_step s x = Some s'" "tasks_inv s"
  shows "tasks_inv s'"
proof (cases s; cases x)
  fix a ts req chk
  assume "s = (a, ts)" "x = Arrive req chk"
  with assms show ?thesis
    by (auto simp: tasks_inv_def task_inv_def)
next
  fix a ts i
  assume s: "s = (a, ts)" "x = Run i"
  with assms(1) obtain a' t' where
    st: "i < length ts" "task_step a (ts ! i) = Some (a', t')" "s' = (a', ts[i := t'])"
    by (auto split: if_splits option.splits)
  have all: "\<forall>t\<in>set ts. task_inv a t"
    using assms(2) s by (simp add: tasks_inv_def list_all_iff)
  then have "task_inv a (ts ! i)" using st(1) by simp
  then have new: "task_inv a' t'" by (rule task_step_task_inv [OF st(2)])
  have old: "\<forall>t\<in>set ts. task_inv a' t"
    using all task_inv_same_config [OF task_step_same_config [OF st(2)]] by blast
  have "\<forall>t\<in>set (ts[i := t']). task_inv a' t"
    using new old set_update_subset_insert [of ts i t'] by auto
  then show ?thesis using st(3) by (simp add: tasks_inv_def list_all_iff)
qed

lemma sys_step_gate_inv:
  assumes "sys_step s x = Some s'" "gate_inv n s"
  shows "gate_inv n s'"
proof (cases s; cases x)
  fix a ts req chk
  assume "s = (a, ts)" "x = Arrive req chk"
  with assms show ?thesis
    by (auto simp: gate_inv_def held_append_entry split: option.splits)
next
  fix a ts i
  assume s: "s = (a, ts)" "x = Run i"
  with assms(1) obtain a' t' where
    st: "i < length ts" "task_step a (ts ! i) = Some (a', t')" "s' = (a', ts[i := t'])"
    by (auto split: if_splits option.splits)
  show ?thesis
    using task_step_gate_inv [OF _ st(1) st(2)] assms(2) s st(3) by simp
qed

lemma sys_run_same_config:
  "sys_run s xs = Some s' \<Longrightarrow> same_config (fst s) (fst s')"
proof (induction xs arbitrary: s)
  case Nil
  then show ?case by (simp add: same_config_refl)
next
  case (Cons x xs)
  then obtain s1 where s1: "sys_step s x = Some s1" "sys_run s1 xs = Some s'"
    by (auto split: option.splits)
  from sys_step_same_config [OF s1(1)] Cons.IH [OF s1(2)] show ?case
    by (simp add: same_config_def)
qed

lemma sys_run_tasks_inv:
  "sys_run s xs = Some s' \<Longrightarrow> tasks_inv s \<Longrightarrow> tasks_inv s'"
proof (induction xs arbitrary: s)
  case Nil
  then show ?case by simp
next
  case (Cons x xs)
  then obtain s1 where s1: "sys_step s x = Some s1" "sys_run s1 xs = Some s'"
    by (auto split: option.splits)
  from Cons.IH [OF s1(2) sys_step_tasks_inv [OF s1(1) Cons.prems(2)]] show ?case .
qed

lemma sys_run_gate_inv:
  "sys_run s xs = Some s' \<Longrightarrow> gate_inv n s \<Longrightarrow> gate_inv n s'"
proof (induction xs arbitrary: s)
  case Nil
  then show ?case by simp
next
  case (Cons x xs)
  then obtain s1 where s1: "sys_step s x = Some s1" "sys_run s1 xs = Some s'"
    by (auto split: option.splits)
  from Cons.IH [OF s1(2) sys_step_gate_inv [OF s1(1) Cons.prems(2)]] show ?case .
qed

lemma tasks_inv_init: "tasks_inv (a, [])"
  by (simp add: tasks_inv_def)

lemma gate_inv_init: "cc a = Some \<lparr>chan_cap = n, chan_len = n\<rparr> \<Longrightarrow> gate_inv n (a, [])"
  by (simp add: gate_inv_def held_def)

lemma hMain_no_gate_events:
  "EvAcquire \<notin> set (tr (hMain req a))" "EvRelease \<notin> set (tr (hMain req a))"
  by (simp_all add: hMain_tr split: option.splits)

lemma count_list_notin: "x \<notin> set xs \<Longrightarrow> count_list xs x = 0"
  by (simp add: count_list_0_iff)

lemma task_inv_counts:
  assumes "task_inv a t"
  shows "count_list (t_tr t) EvRelease + (if holding t then 1 else 0) = count_list (t_tr t) EvAcquire
         \<and> count_list (t_tr t) EvAcquire \<le> 1"
proof -
  have h: "count_list (tr (hMain (t_req t) a)) EvAcquire = 0"
    "count_list (tr (hMain (t_req t) a)) EvRelease = 0"
    by (simp_all add: count_list_notin hMain_no_gate_events)
  show ?thesis
  proof (cases "t_pc t")
    case Entry
    with assms show ?thesis by (simp add: task_inv_def holding_def Let_def)
  next
    case InMain
    with assms show ?thesis by (simp add: task_inv_def holding_def Let_def)
  next
    case (Exiting e)
    with assms h show ?thesis by (simp add: task_inv_def holding_def Let_def)
  next
    case (Finished e)
    with assms h show ?thesis
      by (auto simp: task_inv_def holding_def Let_def count_list_notin split: if_splits)
  qed
qed

lemma fill_full:
  "0 \<le> i \<Longrightarrow> i \<le> n \<Longrightarrow> chan_cap c = nat n \<Longrightarrow> chan_len c = nat i \<Longrightarrow>
     fill i n c = Some (c\<lparr>chan_len := nat n\<rparr>)"
proof (induction i n c rule: fill.induct)
  case (1 i n c)
  show ?case
  proof (cases "i < n")
    case True
    let ?c' = "c\<lparr>chan_len := chan_len c + 1\<rparr>"
    have s: "chan_send c = Some ?c'"
      using True "1.prems" by (simp add: chan_send_def)
    have "fill (i + 1) n ?c' = Some (?c'\<lparr>chan_len := nat n\<rparr>)"
      using True "1.prems" by (intro "1.IH" [OF True s]) (simp_all add: nat_add_distrib)
    then show ?thesis
      using True s by (subst fill.simps) simp
  next
    case False
    then have "i = n" using "1.prems" by simp
    then show ?thesis
      using "1.prems" by (subst fill.simps) simp
  qed
qed

lemma New_gate:
  "0 < concurrency (New_opts dr dl dm os) \<Longrightarrow>
     New dr dl dm f os =
       Some \<lparr>opts = New_opts dr dl dm os, cf = f, mux = (\<lambda>p. None),
             cc = Some \<lparr>chan_cap = nat (concurrency (New_opts dr dl dm os)),
                        chan_len = nat (concurrency (New_opts dr dl dm os))\<rparr>,
             readinessFailed = 0\<rparr>"
  using fill_full [of 0 "concurrency (New_opts dr dl dm os)"
      "make_chan (concurrency (New_opts dr dl dm os))"]
  by (simp add: New_def Let_def make_chan_def)

lemma New_no_gate:
  "concurrency (New_opts dr dl dm os) \<le> 0 \<Longrightarrow>
     New dr dl dm f os =
       Some \<lparr>opts = New_opts dr dl dm os, cf = f, mux = (\<lambda>p. None), cc = None,
             readinessFailed = 0\<rparr>"
  by (simp add: New_def Let_def)

lemma to_main_iff:
  "to_main os p \<longleftrightarrow>
     \<not> (p = readinessPath os \<or> p = livenessPath os \<or> p = metricsPath os \<or> HasPrefix p ''/debug/'')"
  by (auto simp: to_main_def)

lemma New_opts_snoc: "New_opts dr dl dm (os @ [g]) = g (New_opts dr dl dm os)"
  by (simp add: New_opts_def)

lemma ServeHTTP_no_gate_main:
  assumes "cc a = None" "to_main (opts a) (URL_Path req)"
  shows "ServeHTTP a chk req = hMain req a"
  using assms by (simp add: ServeHTTP_main serveMain_no_gate)

lemma lifecycle_facts:
  "count_list (lifecycle g) EvPerform = 1"
  "precedes EvFactory EvDeferPerform (lifecycle g)"
  "precedes EvDeferPerform EvInject (lifecycle g)"
  "precedes EvInject EvInvoke (lifecycle g)"
  "precedes EvInvoke EvPerform (lifecycle g)"
  "precedes EvPerform EvRelease (lifecycle True)"
  by (simp_all add: lifecycle_def precedes_def)

lemma hMain_route:
  "mux a (URL_Path req) = Some fn \<Longrightarrow>
     tr (hMain req a) = lifecycle False \<and> ex (hMain req a) = exit_of (fn (cf a req))"
  by (simp add: hMain_tr hMain_ex lifecycle_def)

lemma lifecycle_gated: "lifecycle True = [EvAcquire, EvDeferRelease] @ lifecycle False @ [EvRelease]"
  by (simp add: lifecycle_def)

lemma ex_run_boom:
  "sys_run (ex_app, []) [Arrive \<lparr>URL_Path = ''/boom''\<rparr> [], Run 0, Run 0, Run 0]
     = Some (ex_app,
             [\<lparr>t_req = \<lparr>URL_Path = ''/boom''\<rparr>, t_chk = [], t_pc = Finished Panicked,
               t_tr = [EvAcquire, EvDeferRelease, EvFactory, EvDeferPerform, EvInject, EvInvoke,
                       EvPerform, EvRelease]\<rparr>])"
  by (simp add: task_step_def to_main_def HasPrefix_def recv_cc_def send_cc_def chan_recv_def
        chan_send_def hMain_def HandleFunc_handler_eq exit_of_def ex_app_def ex_opts_def ex_mux_def
        Let_def)

text \<open>
  A task that runs with no other in between does what \<open>ServeHTTP\<close> does: the same
  state of the \<open>app\<close> afterwards, the same trace, the same exit.
\<close>

lemma task_alone_direct:
  assumes "\<not> (to_main (opts a) (URL_Path req) \<and> cc a \<noteq> None)"
  shows "sys_run (a, [\<lparr>t_req = req, t_chk = chk, t_pc = Entry, t_tr = []\<rparr>]) [Run 0]
           = Some (st (ServeHTTP a chk req),
                   [\<lparr>t_req = req, t_chk = chk, t_pc = Finished (ex (ServeHTTP a chk req)),
                     t_tr = tr (ServeHTTP a chk req)\<rparr>])"
proof -
  have "ex (ServeHTTP a chk req) \<noteq> Blocked"
  proof (cases "to_main (opts a) (URL_Path req)")
    case True
    then have "cc a = None" using assms by simp
    then show ?thesis
      using True by (simp add: ServeHTTP_no_gate_main hMain_not_Blocked)
  next
    case False
    then show ?thesis by (simp add: reserved_frame)
  qed
  then show ?thesis
    using assms by (auto simp: task_step_def Let_def)
qed

lemma task_alone_gated:
  assumes "to_main (opts a) (URL_Path req)" "cc a = Some ch"
    and "0 < chan_len ch" "chan_len ch \<le> chan_cap ch"
  shows "sys_run (a, [\<lparr>t_req = req, t_chk = chk, t_pc = Entry, t_tr = []\<rparr>]) [Run 0, Run 0, Run 0]
           = Some (st (ServeHTTP a chk req),
                   [\<lparr>t_req = req, t_chk = chk, t_pc = Finished (ex (ServeHTTP a chk req)),
                     t_tr = tr (ServeHTTP a chk req)\<rparr>])"
proof -
  let ?a1 = "a\<lparr>cc := Some (ch\<lparr>chan_len := chan_len ch - Suc 0\<rparr>)\<rparr>"
  let ?t0 = "\<lparr>t_req = req, t_chk = chk, t_pc = Entry, t_tr = []\<rparr>"
  let ?t1 = "\<lparr>t_req = req, t_chk = chk, t_pc = InMain, t_tr = [EvAcquire, EvDeferRelease]\<rparr>"
  let ?t2 = "\<lparr>t_req = req, t_chk = chk, t_pc = Exiting (ex (hMain req a)),
             t_tr = EvAcquire # EvDeferRelease # tr (hMain req a)\<rparr>"
  let ?t3 = "\<lparr>t_req = req, t_chk = chk, t_pc = Finished (ex (hMain req a)),
             t_tr = EvAcquire # EvDeferRelease # tr (hMain req a) @ [EvRelease]\<rparr>"
  have h: "tr (hMain req ?a1) = tr (hMain req a)" "ex (hMain req ?a1) = ex (hMain req a)"
    by (simp_all add: hMain_tr hMain_ex split: option.splits)
  have 1: "task_step a ?t0 = Some (?a1, ?t1)"
    using assms by (simp add: task_step_def recv_cc_def chan_recv_def)
  have 2: "task_step ?a1 ?t1 = Some (?a1, ?t2)"
    using hMain_not_Blocked [of req a] by (simp add: task_step_def Let_def h hMain_st)
  have 3: "task_step ?a1 ?t2 = Some (a, ?t3)"
    using assms by (simp add: task_step_def send_cc_def chan_send_def)
  have "sys_run (a, [?t0]) [Run 0, Run 0, Run 0] = Some (a, [?t3])"
    by (simp add: 1 2 3)
  then show ?thesis
    using serveMain_gate [OF assms(2,3,4), of req] assms(1) by (simp add: ServeHTTP_main)
qed

subsection \<open>The admission gate\<close>

text \<open>
  C7. A request whose path is the readiness, the liveness or the metrics path, or begins
  with \<open>/debug/\<close>, does not touch the admission gate: the channel is left as it was, no
  permit is acquired or released, and the request returns whatever the channel holds,
  also when every permit is held (then an application request blocks). As a task among
  others it is one step that is always taken.
\<close>

theorem reserved_paths_bypass_gate:
  assumes "URL_Path req = readinessPath (opts a) \<or> URL_Path req = livenessPath (opts a)
           \<or> URL_Path req = metricsPath (opts a) \<or> HasPrefix (URL_Path req) ''/debug/''"
  shows "cc (st (ServeHTTP a chk req)) = cc a
         \<and> EvAcquire \<notin> set (tr (ServeHTTP a chk req))
         \<and> EvRelease \<notin> set (tr (ServeHTTP a chk req))
         \<and> ex (ServeHTTP a chk req) = Returned
         \<and> (\<exists>a'. task_step a \<lparr>t_req = req, t_chk = chk, t_pc = Entry, t_tr = []\<rparr>
                    = Some (a', \<lparr>t_req = req, t_chk = chk, t_pc = Finished Returned,
                                 t_tr = tr (ServeHTTP a chk req)\<rparr>)
                \<and> cc a' = cc a)"
proof -
  have r: "\<not> to_main (opts a) (URL_Path req)"
    using assms by (simp add: to_main_iff)
  note f = reserved_frame [OF r, of chk]
  have "task_step a \<lparr>t_req = req, t_chk = chk, t_pc = Entry, t_tr = []\<rparr>
          = Some (st (ServeHTTP a chk req),
                  \<lparr>t_req = req, t_chk = chk, t_pc = Finished Returned,
                   t_tr = tr (ServeHTTP a chk req)\<rparr>)"
    using r f(5) by (simp add: task_step_def Let_def)
  with f show ?thesis by simp
qed

theorem reserved_paths_bypass_gate_witness:
  "cc (ex_app\<lparr>cc := Some \<lparr>chan_cap = 2, chan_len = 0\<rparr>\<rparr>) = Some \<lparr>chan_cap = 2, chan_len = 0\<rparr>
   \<and> ex (ServeHTTP (ex_app\<lparr>cc := Some \<lparr>chan_cap = 2, chan_len = 0\<rparr>\<rparr>) [] \<lparr>URL_Path = ''/hello''\<rparr>)
       = Blocked
   \<and> URL_Path \<lparr>URL_Path = ''/readyz''\<rparr>
       = readinessPath (opts (ex_app\<lparr>cc := Some \<lparr>chan_cap = 2, chan_len = 0\<rparr>\<rparr>))
   \<and> ex (ServeHTTP (ex_app\<lparr>cc := Some \<lparr>chan_cap = 2, chan_len = 0\<rparr>\<rparr>) [(''db'', None)]
         \<lparr>URL_Path = ''/readyz''\<rparr>) = Returned
   \<and> cc (st (ServeHTTP (ex_app\<lparr>cc := Some \<lparr>chan_cap = 2, chan_len = 0\<rparr>\<rparr>) [(''db'', None)]
         \<lparr>URL_Path = ''/readyz''\<rparr>)) = Some \<lparr>chan_cap = 2, chan_len = 0\<rparr>
   \<and> HasPrefix (URL_Path \<lparr>URL_Path = ''/debug/pprof/heap''\<rparr>) ''/debug/''
   \<and> ex (ServeHTTP (ex_app\<lparr>cc := Some \<lparr>chan_cap = 2, chan_len = 0\<rparr>\<rparr>) []
         \<lparr>URL_Path = ''/debug/pprof/heap''\<rparr>) = Returned
   \<and> EvAcquire \<notin> set (tr (ServeHTTP (ex_app\<lparr>cc := Some \<lparr>chan_cap = 2, chan_len = 0\<rparr>\<rparr>) []
         \<lparr>URL_Path = ''/debug/pprof/heap''\<rparr>))"
proof -
  let ?a = "ex_app\<lparr>cc := Some \<lparr>chan_cap = 2, chan_len = 0\<rparr>\<rparr>"
  have h: "URL_Path \<lparr>URL_Path = ''/readyz''\<rparr> = readinessPath (opts ?a)"
    "HasPrefix (URL_Path \<lparr>URL_Path = ''/debug/pprof/heap''\<rparr>) ''/debug/''"
    by (simp_all add: ex_app_def ex_opts_def HasPrefix_def)
  have m: "to_main (opts ?a) (URL_Path \<lparr>URL_Path = ''/hello''\<rparr>)"
    by (simp add: to_main_def ex_app_def ex_opts_def HasPrefix_def)
  have b: "ex (ServeHTTP ?a [] \<lparr>URL_Path = ''/hello''\<rparr>) = Blocked"
    using serveMain_blocked [of ?a "\<lparr>chan_cap = 2, chan_len = 0\<rparr>" "\<lparr>URL_Path = ''/hello''\<rparr>"]
    by (simp add: ServeHTTP_main [OF m])
  show ?thesis
    using h b
      reserved_paths_bypass_gate [of "\<lparr>URL_Path = ''/readyz''\<rparr>" ?a "[(''db'', None)]"]
      reserved_paths_bypass_gate [of "\<lparr>URL_Path = ''/debug/pprof/heap''\<rparr>" ?a "[]"]
    by simp
qed

text \<open>
  C10. With a configured \<open>concurrency\<close> of 0 or less, \<open>New\<close> creates no channel. The \<open>app\<close>
  for a negative value is the one for 0 but for the stored option, and \<open>ServeHTTP\<close>
  answers both alike. Every application request then goes straight to the route table:
  it does not block, and no permit is acquired or released; among other tasks its
  first step is always taken.
\<close>

theorem nonpositive_concurrency_disables_gate:
  assumes "concurrency (New_opts dr dl dm os) \<le> 0"
  shows "\<exists>a0. New dr dl dm f os = Some a0
           \<and> opts a0 = New_opts dr dl dm os
           \<and> cc a0 = None
           \<and> New dr dl dm f (os @ [\<lambda>cur. cur\<lparr>concurrency := 0\<rparr>])
               = Some (a0\<lparr>opts := (opts a0)\<lparr>concurrency := 0\<rparr>\<rparr>)
           \<and> (\<forall>routes chk req. to_main (opts a0) (URL_Path req) \<longrightarrow>
                 ServeHTTP (a0\<lparr>mux := routes\<rparr>) chk req = hMain req (a0\<lparr>mux := routes\<rparr>)
                 \<and> ex (ServeHTTP (a0\<lparr>mux := routes\<rparr>) chk req) \<noteq> Blocked
                 \<and> EvAcquire \<notin> set (tr (ServeHTTP (a0\<lparr>mux := routes\<rparr>) chk req))
                 \<and> EvRelease \<notin> set (tr (ServeHTTP (a0\<lparr>mux := routes\<rparr>) chk req))
                 \<and> cc (st (ServeHTTP (a0\<lparr>mux := routes\<rparr>) chk req)) = None
                 \<and> tr (ServeHTTP (a0\<lparr>mux := routes, opts := (opts a0)\<lparr>concurrency := 0\<rparr>\<rparr>) chk req)
                     = tr (ServeHTTP (a0\<lparr>mux := routes\<rparr>) chk req)
                 \<and> ex (ServeHTTP (a0\<lparr>mux := routes, opts := (opts a0)\<lparr>concurrency := 0\<rparr>\<rparr>) chk req)
                     = ex (ServeHTTP (a0\<lparr>mux := routes\<rparr>) chk req))
           \<and> (\<forall>routes sched a ts.
                 sys_run (a0\<lparr>mux := routes\<rparr>, []) sched = Some (a, ts) \<longrightarrow>
                   cc a = None
                   \<and> (\<forall>t\<in>set ts. EvAcquire \<notin> set (t_tr t) \<and> EvRelease \<notin> set (t_tr t)
                                    \<and> (t_pc t = Entry \<longrightarrow> task_step a t \<noteq> None)))"
proof -
  let ?o = "New_opts dr dl dm os"
  let ?a0 = "\<lparr>opts = ?o, cf = f, mux = (\<lambda>p. None), cc = None, readinessFailed = 0\<rparr>"
  have new: "New dr dl dm f os = Some ?a0"
    using assms by (rule New_no_gate)
  have new0: "New dr dl dm f (os @ [\<lambda>cur. cur\<lparr>concurrency := 0\<rparr>])
                = Some (?a0\<lparr>opts := (opts ?a0)\<lparr>concurrency := 0\<rparr>\<rparr>)"
    using New_no_gate [of dr dl dm "os @ [\<lambda>cur. cur\<lparr>concurrency := 0\<rparr>]" f]
    by (simp add: New_opts_snoc)
  have seq: "ServeHTTP (?a0\<lparr>mux := routes\<rparr>) chk req = hMain req (?a0\<lparr>mux := routes\<rparr>)
        \<and> ex (ServeHTTP (?a0\<lparr>mux := routes\<rparr>) chk req) \<noteq> Blocked
        \<and> EvAcquire \<notin> set (tr (ServeHTTP (?a0\<lparr>mux := routes\<rparr>) chk req))
        \<and> EvRelease \<notin> set (tr (ServeHTTP (?a0\<lparr>mux := routes\<rparr>) chk req))
        \<and> cc (st (ServeHTTP (?a0\<lparr>mux := routes\<rparr>) chk req)) = None
        \<and> tr (ServeHTTP (?a0\<lparr>mux := routes, opts := (opts ?a0)\<lparr>concurrency := 0\<rparr>\<rparr>) chk req)
            = tr (ServeHTTP (?a0\<lparr>mux := routes\<rparr>) chk req)
        \<and> ex (ServeHTTP (?a0\<lparr>mux := routes, opts := (opts ?a0)\<lparr>concurrency := 0\<rparr>\<rparr>) chk req)
            = ex (ServeHTTP (?a0\<lparr>mux := routes\<rparr>) chk req)"
    if m: "to_main (opts ?a0) (URL_Path req)" for routes chk req
  proof -
    let ?a = "?a0\<lparr>mux := routes\<rparr>"
    let ?b = "?a0\<lparr>mux := routes, opts := (opts ?a0)\<lparr>concurrency := 0\<rparr>\<rparr>"
    have 1: "ServeHTTP ?a chk req = hMain req ?a"
      using m by (intro ServeHTTP_no_gate_main) simp_all
    have mb: "to_main (opts ?b) (URL_Path req)"
      using m by (simp add: to_main_def)
    have 2: "ServeHTTP ?b chk req = hMain req ?b"
      using mb by (intro ServeHTTP_no_gate_main) simp_all
    have 3: "tr (hMain req ?b) = tr (hMain req ?a)" "ex (hMain req ?b) = ex (hMain req ?a)"
      by (simp_all add: hMain_tr hMain_ex split: option.splits)
    show ?thesis
      using 1 2 3 by (simp add: hMain_not_Blocked hMain_no_gate_events hMain_st)
  qed
  have conc: "cc a = None
        \<and> (\<forall>t\<in>set ts. EvAcquire \<notin> set (t_tr t) \<and> EvRelease \<notin> set (t_tr t)
                         \<and> (t_pc t = Entry \<longrightarrow> task_step a t \<noteq> None))"
    if run: "sys_run (?a0\<lparr>mux := routes\<rparr>, []) sched = Some (a, ts)" for routes sched a ts
  proof -
    have c: "cc a = None"
      using sys_run_same_config [OF run] by (simp add: same_config_def)
    have inv: "\<forall>t\<in>set ts. task_inv a t"
      using sys_run_tasks_inv [OF run tasks_inv_init] by (simp add: tasks_inv_def list_all_iff)
    have "EvAcquire \<notin> set (t_tr t) \<and> EvRelease \<notin> set (t_tr t)
            \<and> (t_pc t = Entry \<longrightarrow> task_step a t \<noteq> None)"
      if t: "t \<in> set ts" for t
    proof -
      have ti: "task_inv a t" using inv t by blast
      have ev: "EvAcquire \<notin> set (t_tr t) \<and> EvRelease \<notin> set (t_tr t)"
      proof (cases "t_pc t")
        case Entry
        with ti show ?thesis by (simp add: task_inv_def Let_def)
      next
        case InMain
        with ti c show ?thesis by (simp add: task_inv_def Let_def)
      next
        case (Exiting e)
        with ti c show ?thesis by (simp add: task_inv_def Let_def)
      next
        case (Finished e)
        with ti c show ?thesis
          by (auto simp: task_inv_def Let_def hMain_no_gate_events split: if_splits)
      qed
      have "task_step a t \<noteq> None" if e: "t_pc t = Entry"
      proof (cases "to_main (opts a) (URL_Path (t_req t))")
        case True
        then have "ServeHTTP a (t_chk t) (t_req t) = hMain (t_req t) a"
          using c by (intro ServeHTTP_no_gate_main)
        then show ?thesis
          using e c by (simp add: task_step_def Let_def hMain_not_Blocked)
      next
        case False
        then show ?thesis
          using e reserved_frame(5) [OF False, of "t_chk t"] by (simp add: task_step_def Let_def)
      qed
      with ev show ?thesis by simp
    qed
    with c show ?thesis by blast
  qed
  have o: "opts ?a0 = ?o" "cc ?a0 = None"
    by simp_all
  show ?thesis
  proof (intro exI [of _ ?a0] conjI)
    show "New dr dl dm f os = Some ?a0" by (rule new)
    show "opts ?a0 = ?o" by (rule o)
    show "cc ?a0 = None" by (rule o)
    show "New dr dl dm f (os @ [\<lambda>cur. cur\<lparr>concurrency := 0\<rparr>])
            = Some (?a0\<lparr>opts := (opts ?a0)\<lparr>concurrency := 0\<rparr>\<rparr>)"
      by (rule new0)
  qed (use seq conc in blast)+
qed

theorem nonpositive_concurrency_disables_gate_witness:
  "concurrency (New_opts ''/readyz'' ''/livez'' ''/metrics'' [\<lambda>cur. cur\<lparr>concurrency := - 3\<rparr>]) \<le> 0
   \<and> (\<exists>a0. New ''/readyz'' ''/livez'' ''/metrics'' (\<lambda>req. ()) [\<lambda>cur. cur\<lparr>concurrency := - 3\<rparr>]
              = Some a0
          \<and> cc a0 = None
          \<and> to_main (opts a0) (URL_Path \<lparr>URL_Path = ''/hello''\<rparr>)
          \<and> ex (ServeHTTP (a0\<lparr>mux := ex_mux\<rparr>) [] \<lparr>URL_Path = ''/hello''\<rparr>) = Returned
          \<and> tr (ServeHTTP (a0\<lparr>mux := ex_mux\<rparr>) [] \<lparr>URL_Path = ''/hello''\<rparr>)
              = [EvFactory, EvDeferPerform, EvInject, EvInvoke, EvPerform])"
proof -
  let ?os = "[\<lambda>cur. cur\<lparr>concurrency := - 3\<rparr>] :: (options \<Rightarrow> options) list"
  have h: "concurrency (New_opts ''/readyz'' ''/livez'' ''/metrics'' ?os) \<le> 0"
    by (simp add: New_opts_def)
  from nonpositive_concurrency_disables_gate [OF h, of "\<lambda>req. ()"]
  obtain a0 :: "unit app" where
    a0: "New ''/readyz'' ''/livez'' ''/metrics'' (\<lambda>req. ()) ?os = Some a0"
      "opts a0 = New_opts ''/readyz'' ''/livez'' ''/metrics'' ?os"
      "cc a0 = None"
      "\<And>routes chk req. to_main (opts a0) (URL_Path req) \<Longrightarrow>
         ServeHTTP (a0\<lparr>mux := routes\<rparr>) chk req = hMain req (a0\<lparr>mux := routes\<rparr>)"
    by blast
  have m: "to_main (opts a0) (URL_Path \<lparr>URL_Path = ''/hello''\<rparr>)"
    by (simp add: a0(2) New_opts_def to_main_def HasPrefix_def)
  have "ServeHTTP (a0\<lparr>mux := ex_mux\<rparr>) [] \<lparr>URL_Path = ''/hello''\<rparr>
          = hMain \<lparr>URL_Path = ''/hello''\<rparr> (a0\<lparr>mux := ex_mux\<rparr>)"
    using m by (rule a0(4))
  then have "ex (ServeHTTP (a0\<lparr>mux := ex_mux\<rparr>) [] \<lparr>URL_Path = ''/hello''\<rparr>) = Returned"
    "tr (ServeHTTP (a0\<lparr>mux := ex_mux\<rparr>) [] \<lparr>URL_Path = ''/hello''\<rparr>)
       = [EvFactory, EvDeferPerform, EvInject, EvInvoke, EvPerform]"
    by (simp_all add: hMain_ex hMain_tr ex_mux_def exit_of_def)
  with h a0(1,3) m show ?thesis by blast
qed

text \<open>
  C5, as stated, fails for a request that reaches the application routes with a path
  that no registered pattern matches: it passes the admission gate, \<open>ServeMux\<close> answers
  by itself, no Context is constructed and \<open>Perform\<close> is not called.
\<close>

theorem lifecycle_unregistered_path_counterexample:
  "to_main (opts ex_app) (URL_Path \<lparr>URL_Path = ''/nope''\<rparr>)
   \<and> mux ex_app (URL_Path \<lparr>URL_Path = ''/nope''\<rparr>) = None
   \<and> tr (ServeHTTP ex_app [] \<lparr>URL_Path = ''/nope''\<rparr>)
       = [EvAcquire, EvDeferRelease, EvMuxOwn, EvRelease]
   \<and> ex (ServeHTTP ex_app [] \<lparr>URL_Path = ''/nope''\<rparr>) = Returned
   \<and> count_list (tr (ServeHTTP ex_app [] \<lparr>URL_Path = ''/nope''\<rparr>)) EvFactory = 0
   \<and> count_list (tr (ServeHTTP ex_app [] \<lparr>URL_Path = ''/nope''\<rparr>)) EvPerform = 0"
proof -
  have m: "to_main (opts ex_app) (URL_Path \<lparr>URL_Path = ''/nope''\<rparr>)"
    by (simp add: to_main_def ex_app_def ex_opts_def HasPrefix_def)
  have n: "mux ex_app (URL_Path \<lparr>URL_Path = ''/nope''\<rparr>) = None"
    by (simp add: ex_app_def ex_mux_def)
  have c: "cc ex_app = Some \<lparr>chan_cap = 2, chan_len = 2\<rparr>"
    by (simp add: ex_app_def)
  have h: "tr (hMain \<lparr>URL_Path = ''/nope''\<rparr> ex_app) = [EvMuxOwn]"
    "ex (hMain \<lparr>URL_Path = ''/nope''\<rparr> ex_app) = Returned"
    using n by (simp_all add: hMain_tr hMain_ex)
  have "serveMain \<lparr>URL_Path = ''/nope''\<rparr> ex_app =
      \<lparr>st = ex_app,
       tr = [EvAcquire, EvDeferRelease] @ tr (hMain \<lparr>URL_Path = ''/nope''\<rparr> ex_app) @ [EvRelease],
       ex = ex (hMain \<lparr>URL_Path = ''/nope''\<rparr> ex_app)\<rparr>"
    using c by (rule serveMain_gate) simp_all
  then show ?thesis
    using m n h by (simp add: ServeHTTP_main)
qed

text \<open>
  C5, amended. A request that the route table resolves to a registered application
  route, once admitted, runs the Context
  lifecycle in this order: the factory constructs the Context, \<open>Perform\<close> is deferred,
  the dependencies are injected, the handler function is invoked, \<open>Perform\<close> runs. It
  runs exactly once, whether the handler function returns or panics, and before the
  permit is released. The same holds for the request as a task among others, by the
  time it has finished.
\<close>

theorem context_lifecycle:
  assumes "to_main (opts a) (URL_Path req)" "mux a (URL_Path req) = Some fn"
  shows "(cc a = None \<or> (\<exists>ch. cc a = Some ch \<and> 0 < chan_len ch \<and> chan_len ch \<le> chan_cap ch)
            \<longrightarrow> tr (ServeHTTP a chk req) = lifecycle (cc a \<noteq> None)
                \<and> ex (ServeHTTP a chk req) = exit_of (fn (cf a req)))
         \<and> (\<forall>sched a' ts. sys_run (a, []) sched = Some (a', ts) \<longrightarrow>
               (\<forall>t\<in>set ts. \<forall>e. t_req t = req \<and> t_pc t = Finished e \<longrightarrow>
                  t_tr t = lifecycle (cc a \<noteq> None) \<and> e = exit_of (fn (cf a req))))
         \<and> count_list (lifecycle (cc a \<noteq> None)) EvPerform = 1
         \<and> precedes EvFactory EvDeferPerform (lifecycle (cc a \<noteq> None))
         \<and> precedes EvDeferPerform EvInject (lifecycle (cc a \<noteq> None))
         \<and> precedes EvInject EvInvoke (lifecycle (cc a \<noteq> None))
         \<and> precedes EvInvoke EvPerform (lifecycle (cc a \<noteq> None))
         \<and> (cc a \<noteq> None \<longrightarrow> precedes EvPerform EvRelease (lifecycle (cc a \<noteq> None)))"
proof -
  note h = hMain_route [OF assms(2)]
  have seq: "tr (ServeHTTP a chk req) = lifecycle (cc a \<noteq> None)
               \<and> ex (ServeHTTP a chk req) = exit_of (fn (cf a req))"
    if g: "cc a = None \<or> (\<exists>ch. cc a = Some ch \<and> 0 < chan_len ch \<and> chan_len ch \<le> chan_cap ch)"
  proof (cases "cc a")
    case None
    then show ?thesis
      using h by (simp add: ServeHTTP_main [OF assms(1)] serveMain_no_gate)
  next
    case (Some ch)
    with g have "0 < chan_len ch" "chan_len ch \<le> chan_cap ch" by simp_all
    from serveMain_gate [OF Some this, of req] show ?thesis
      using h Some by (simp add: ServeHTTP_main [OF assms(1)] lifecycle_gated)
  qed
  have conc: "t_tr t = lifecycle (cc a \<noteq> None) \<and> e = exit_of (fn (cf a req))"
    if run: "sys_run (a, []) sched = Some (a', ts)" and t: "t \<in> set ts"
      and f: "t_req t = req \<and> t_pc t = Finished e" for sched a' ts t e
  proof -
    have sc: "same_config a a'"
      using sys_run_same_config [OF run] by simp
    have "task_inv a' t"
      using sys_run_tasks_inv [OF run tasks_inv_init] t by (simp add: tasks_inv_def list_all_iff)
    then have ti: "task_inv a t"
      using sc task_inv_same_config [of a' a t] by (simp add: same_config_def)
    show ?thesis
      using ti f assms(1) h by (simp add: task_inv_def Let_def lifecycle_gated)
  qed
  show ?thesis
  proof (intro conjI)
    show "cc a = None \<or> (\<exists>ch. cc a = Some ch \<and> 0 < chan_len ch \<and> chan_len ch \<le> chan_cap ch)
            \<longrightarrow> tr (ServeHTTP a chk req) = lifecycle (cc a \<noteq> None)
                \<and> ex (ServeHTTP a chk req) = exit_of (fn (cf a req))"
      using seq by blast
    show "\<forall>sched a' ts. sys_run (a, []) sched = Some (a', ts) \<longrightarrow>
            (\<forall>t\<in>set ts. \<forall>e. t_req t = req \<and> t_pc t = Finished e \<longrightarrow>
               t_tr t = lifecycle (cc a \<noteq> None) \<and> e = exit_of (fn (cf a req)))"
      using conc by blast
    show "cc a \<noteq> None \<longrightarrow> precedes EvPerform EvRelease (lifecycle (cc a \<noteq> None))"
      using lifecycle_facts(6) by simp
  qed (rule lifecycle_facts)+
qed

theorem context_lifecycle_witness:
  "to_main (opts ex_app) (URL_Path \<lparr>URL_Path = ''/boom''\<rparr>)
   \<and> mux ex_app (URL_Path \<lparr>URL_Path = ''/boom''\<rparr>) = Some (\<lambda>c. Panics)
   \<and> to_main (opts ex_app) (URL_Path \<lparr>URL_Path = ''/hello''\<rparr>)
   \<and> mux ex_app (URL_Path \<lparr>URL_Path = ''/hello''\<rparr>) = Some (\<lambda>c. Returns)
   \<and> cc ex_app = Some \<lparr>chan_cap = 2, chan_len = 2\<rparr>
   \<and> tr (ServeHTTP ex_app [] \<lparr>URL_Path = ''/boom''\<rparr>)
       = [EvAcquire, EvDeferRelease, EvFactory, EvDeferPerform, EvInject, EvInvoke, EvPerform,
          EvRelease]
   \<and> ex (ServeHTTP ex_app [] \<lparr>URL_Path = ''/boom''\<rparr>) = Panicked
   \<and> tr (ServeHTTP ex_app [] \<lparr>URL_Path = ''/hello''\<rparr>)
       = [EvAcquire, EvDeferRelease, EvFactory, EvDeferPerform, EvInject, EvInvoke, EvPerform,
          EvRelease]
   \<and> ex (ServeHTTP ex_app [] \<lparr>URL_Path = ''/hello''\<rparr>) = Returned
   \<and> tr (ServeHTTP (ex_app\<lparr>cc := None\<rparr>) [] \<lparr>URL_Path = ''/boom''\<rparr>)
       = [EvFactory, EvDeferPerform, EvInject, EvInvoke, EvPerform]
   \<and> (\<exists>a' t. sys_run (ex_app, []) [Arrive \<lparr>URL_Path = ''/boom''\<rparr> [], Run 0, Run 0, Run 0]
                 = Some (a', [t])
            \<and> t_pc t = Finished Panicked
            \<and> t_tr t = lifecycle True)"
proof -
  have h: "to_main (opts ex_app) (URL_Path \<lparr>URL_Path = ''/boom''\<rparr>)"
    "mux ex_app (URL_Path \<lparr>URL_Path = ''/boom''\<rparr>) = Some (\<lambda>c. Panics)"
    "to_main (opts ex_app) (URL_Path \<lparr>URL_Path = ''/hello''\<rparr>)"
    "mux ex_app (URL_Path \<lparr>URL_Path = ''/hello''\<rparr>) = Some (\<lambda>c. Returns)"
    "cc ex_app = Some \<lparr>chan_cap = 2, chan_len = 2\<rparr>"
    by (simp_all add: ex_app_def ex_opts_def ex_mux_def to_main_def HasPrefix_def)
  have h': "to_main (opts (ex_app\<lparr>cc := None\<rparr>)) (URL_Path \<lparr>URL_Path = ''/boom''\<rparr>)"
    "mux (ex_app\<lparr>cc := None\<rparr>) (URL_Path \<lparr>URL_Path = ''/boom''\<rparr>) = Some (\<lambda>c. Panics)"
    using h by simp_all
  note b = context_lifecycle [OF h(1) h(2), of "[]"]
  note g = context_lifecycle [OF h(3) h(4), of "[]"]
  note n = context_lifecycle [OF h'(1) h'(2), of "[]"]
  have 1: "tr (ServeHTTP ex_app [] \<lparr>URL_Path = ''/boom''\<rparr>) = lifecycle True"
    "ex (ServeHTTP ex_app [] \<lparr>URL_Path = ''/boom''\<rparr>) = Panicked"
    using b h(5) by (simp_all add: exit_of_def)
  have 2: "tr (ServeHTTP ex_app [] \<lparr>URL_Path = ''/hello''\<rparr>) = lifecycle True"
    "ex (ServeHTTP ex_app [] \<lparr>URL_Path = ''/hello''\<rparr>) = Returned"
    using g h(5) by (simp_all add: exit_of_def)
  have 3: "tr (ServeHTTP (ex_app\<lparr>cc := None\<rparr>) [] \<lparr>URL_Path = ''/boom''\<rparr>) = lifecycle False"
    using n by simp
  have 4: "\<exists>a' t. sys_run (ex_app, []) [Arrive \<lparr>URL_Path = ''/boom''\<rparr> [], Run 0, Run 0, Run 0]
                 = Some (a', [t])
            \<and> t_pc t = Finished Panicked \<and> t_tr t = lifecycle True"
    using ex_run_boom by (simp add: lifecycle_def)
  show ?thesis
    using h 1 2 3 4 by (simp add: lifecycle_def)
qed

text \<open>
  C4. With \<open>concurrency > 0\<close>, \<open>New\<close> creates the channel holding exactly \<open>concurrency\<close>
  permits. However the requests interleave, the permits in the channel and the permits
  held by tasks are together \<open>concurrency\<close>; a task has acquired at most one permit and
  has released it exactly once unless it still holds it; and a task whose handler has
  ended, by return or by panic, can always take the deferred send. A request served
  alone acquires and releases exactly once and leaves the \<open>app\<close> as it was, whichever
  way the handler ends.
\<close>

theorem permits_in_circulation:
  assumes "0 < concurrency (New_opts dr dl dm os)"
  shows "\<exists>a0. New dr dl dm f os = Some a0
           \<and> opts a0 = New_opts dr dl dm os
           \<and> cc a0 = Some \<lparr>chan_cap = nat (concurrency (opts a0)),
                            chan_len = nat (concurrency (opts a0))\<rparr>
           \<and> (\<forall>routes sched a ts.
                 sys_run (a0\<lparr>mux := routes\<rparr>, []) sched = Some (a, ts) \<longrightarrow>
                   (\<exists>ch. cc a = Some ch
                        \<and> chan_cap ch = nat (concurrency (opts a0))
                        \<and> chan_len ch + held ts = nat (concurrency (opts a0)))
                   \<and> (\<forall>t\<in>set ts.
                         count_list (t_tr t) EvRelease + (if holding t then 1 else 0)
                           = count_list (t_tr t) EvAcquire
                         \<and> count_list (t_tr t) EvAcquire \<le> 1
                         \<and> (\<forall>e. t_pc t = Exiting e \<longrightarrow>
                               (\<exists>a'. task_step a t
                                  = Some (a', t\<lparr>t_pc := Finished e,
                                                t_tr := t_tr t @ [EvRelease]\<rparr>)))))
           \<and> (\<forall>a chk req ch.
                 to_main (opts a) (URL_Path req) \<and> cc a = Some ch
                 \<and> 0 < chan_len ch \<and> chan_len ch \<le> chan_cap ch \<longrightarrow>
                   st (ServeHTTP a chk req) = a
                   \<and> count_list (tr (ServeHTTP a chk req)) EvAcquire = 1
                   \<and> count_list (tr (ServeHTTP a chk req)) EvRelease = 1
                   \<and> ex (ServeHTTP a chk req) = ex (hMain req a))"
proof -
  let ?o = "New_opts dr dl dm os"
  let ?n = "nat (concurrency ?o)"
  let ?a0 = "\<lparr>opts = ?o, cf = f, mux = (\<lambda>p. None),
              cc = Some \<lparr>chan_cap = ?n, chan_len = ?n\<rparr>, readinessFailed = 0\<rparr>"
  have new: "New dr dl dm f os = Some ?a0"
    using assms by (rule New_gate)
  have o: "opts ?a0 = ?o"
    "cc ?a0 = Some \<lparr>chan_cap = nat (concurrency (opts ?a0)),
                     chan_len = nat (concurrency (opts ?a0))\<rparr>"
    by simp_all
  have conc: "(\<exists>ch. cc a = Some ch \<and> chan_cap ch = nat (concurrency (opts ?a0))
                   \<and> chan_len ch + held ts = nat (concurrency (opts ?a0)))
        \<and> (\<forall>t\<in>set ts.
              count_list (t_tr t) EvRelease + (if holding t then 1 else 0)
                = count_list (t_tr t) EvAcquire
              \<and> count_list (t_tr t) EvAcquire \<le> 1
              \<and> (\<forall>e. t_pc t = Exiting e \<longrightarrow>
                    (\<exists>a'. task_step a t
                       = Some (a', t\<lparr>t_pc := Finished e, t_tr := t_tr t @ [EvRelease]\<rparr>))))"
    if run: "sys_run (?a0\<lparr>mux := routes\<rparr>, []) sched = Some (a, ts)" for routes sched a ts
  proof -
    have "gate_inv ?n (?a0\<lparr>mux := routes\<rparr>, [])"
      by (rule gate_inv_init) simp
    then have gi: "gate_inv ?n (a, ts)"
      by (rule sys_run_gate_inv [OF run])
    have ti: "\<forall>t\<in>set ts. task_inv a t"
      using sys_run_tasks_inv [OF run tasks_inv_init] by (simp add: tasks_inv_def list_all_iff)
    have 1: "\<exists>ch. cc a = Some ch \<and> chan_cap ch = nat (concurrency (opts ?a0))
                   \<and> chan_len ch + held ts = nat (concurrency (opts ?a0))"
      using gi by (auto simp: gate_inv_def split: option.splits)
    have 2: "count_list (t_tr t) EvRelease + (if holding t then 1 else 0)
                = count_list (t_tr t) EvAcquire
              \<and> count_list (t_tr t) EvAcquire \<le> 1
              \<and> (\<forall>e. t_pc t = Exiting e \<longrightarrow>
                    (\<exists>a'. task_step a t
                       = Some (a', t\<lparr>t_pc := Finished e, t_tr := t_tr t @ [EvRelease]\<rparr>)))"
      if t: "t \<in> set ts" for t
      using task_inv_counts [of a t] ti t release_enabled [OF gi t] by blast
    from 1 2 show ?thesis by blast
  qed
  have seq: "st (ServeHTTP a chk req) = a
        \<and> count_list (tr (ServeHTTP a chk req)) EvAcquire = 1
        \<and> count_list (tr (ServeHTTP a chk req)) EvRelease = 1
        \<and> ex (ServeHTTP a chk req) = ex (hMain req a)"
    if p: "to_main (opts a) (URL_Path req) \<and> cc a = Some ch
           \<and> 0 < chan_len ch \<and> chan_len ch \<le> chan_cap ch"
    for a :: "'b app" and chk req ch
  proof -
    have h: "count_list (tr (hMain req a)) EvAcquire = 0"
      "count_list (tr (hMain req a)) EvRelease = 0"
      by (simp_all add: count_list_notin hMain_no_gate_events)
    have "serveMain req a =
        \<lparr>st = a, tr = [EvAcquire, EvDeferRelease] @ tr (hMain req a) @ [EvRelease],
         ex = ex (hMain req a)\<rparr>"
      using p serveMain_gate [of a ch req] by blast
    then show ?thesis
      using p h by (simp add: ServeHTTP_main)
  qed
  show ?thesis
  proof (intro exI [of _ ?a0] conjI)
    show "New dr dl dm f os = Some ?a0" by (rule new)
    show "opts ?a0 = ?o" by (rule o)
    show "cc ?a0 = Some \<lparr>chan_cap = nat (concurrency (opts ?a0)),
                           chan_len = nat (concurrency (opts ?a0))\<rparr>"
      by (rule o)
  qed (use conc seq in blast)+
qed

theorem permits_in_circulation_witness:
  "0 < concurrency (New_opts ''/readyz'' ''/livez'' ''/metrics'' [\<lambda>cur. cur\<lparr>concurrency := 2\<rparr>])
   \<and> (\<exists>a0 a ts ch.
          New ''/readyz'' ''/livez'' ''/metrics'' (\<lambda>req. ()) [\<lambda>cur. cur\<lparr>concurrency := 2\<rparr>] = Some a0
          \<and> cc a0 = Some \<lparr>chan_cap = 2, chan_len = 2\<rparr>
          \<and> sys_run (a0\<lparr>mux := ex_mux\<rparr>, [])
               [Arrive \<lparr>URL_Path = ''/boom''\<rparr> [], Arrive \<lparr>URL_Path = ''/hello''\<rparr> [],
                Run 0, Run 1, Run 0, Run 0] = Some (a, ts)
          \<and> map t_pc ts = [Finished Panicked, InMain]
          \<and> map (\<lambda>t. count_list (t_tr t) EvAcquire) ts = [1, 1]
          \<and> map (\<lambda>t. count_list (t_tr t) EvRelease) ts = [1, 0]
          \<and> held ts = 1
          \<and> cc a = Some ch \<and> chan_cap ch = 2 \<and> chan_len ch = 1
          \<and> chan_len ch + held ts = nat (concurrency (opts a0)))"
proof -
  let ?os = "[\<lambda>cur. cur\<lparr>concurrency := 2\<rparr>] :: (options \<Rightarrow> options) list"
  let ?o = "\<lparr>concurrency = 2, readinessCascade = 5, readinessPath = ''/readyz'',
             livenessPath = ''/livez'', metricsPath = ''/metrics''\<rparr>"
  let ?sched = "[Arrive \<lparr>URL_Path = ''/boom''\<rparr> [], Arrive \<lparr>URL_Path = ''/hello''\<rparr> [],
                Run 0, Run 1, Run 0, Run 0]"
  let ?am = "\<lparr>opts = ?o, cf = (\<lambda>req. ()), mux = ex_mux,
              cc = Some \<lparr>chan_cap = 2, chan_len = 2\<rparr>, readinessFailed = 0\<rparr> :: unit app"
  let ?ts = "[\<lparr>t_req = \<lparr>URL_Path = ''/boom''\<rparr>, t_chk = [], t_pc = Finished Panicked,
               t_tr = [EvAcquire, EvDeferRelease, EvFactory, EvDeferPerform, EvInject, EvInvoke,
                       EvPerform, EvRelease]\<rparr>,
              \<lparr>t_req = \<lparr>URL_Path = ''/hello''\<rparr>, t_chk = [], t_pc = InMain,
               t_tr = [EvAcquire, EvDeferRelease]\<rparr>]"
  have no: "New_opts ''/readyz'' ''/livez'' ''/metrics'' ?os = ?o"
    by (simp add: New_opts_def)
  have h: "0 < concurrency (New_opts ''/readyz'' ''/livez'' ''/metrics'' ?os)"
    by (simp add: no)
  from permits_in_circulation [OF h, of "\<lambda>req. ()"]
  obtain a0 :: "unit app" where
    a0: "New ''/readyz'' ''/livez'' ''/metrics'' (\<lambda>req. ()) ?os = Some a0"
      "opts a0 = New_opts ''/readyz'' ''/livez'' ''/metrics'' ?os"
      "cc a0 = Some \<lparr>chan_cap = nat (concurrency (opts a0)), chan_len = nat (concurrency (opts a0))\<rparr>"
    and inv: "\<And>routes sched a ts. sys_run (a0\<lparr>mux := routes\<rparr>, []) sched = Some (a, ts) \<Longrightarrow>
        (\<exists>ch. cc a = Some ch \<and> chan_cap ch = nat (concurrency (opts a0))
              \<and> chan_len ch + held ts = nat (concurrency (opts a0)))"
    by blast
  have a0m: "a0\<lparr>mux := ex_mux\<rparr> = ?am"
    using a0(1) New_gate [OF h, of "\<lambda>req. ()"] by (auto simp: no)
  have run: "sys_run (?am, []) ?sched = Some (?am\<lparr>cc := Some \<lparr>chan_cap = 2, chan_len = 1\<rparr>\<rparr>, ?ts)"
    by (simp add: task_step_def to_main_def HasPrefix_def recv_cc_def send_cc_def chan_recv_def
          chan_send_def hMain_def HandleFunc_handler_eq exit_of_def ex_mux_def Let_def)
  from inv [of ex_mux ?sched] run a0m
  obtain ch where ch: "cc (?am\<lparr>cc := Some \<lparr>chan_cap = 2, chan_len = 1\<rparr>\<rparr>) = Some ch"
    "chan_cap ch = nat (concurrency (opts a0))"
    "chan_len ch + held ?ts = nat (concurrency (opts a0))"
    by auto
  have c0: "cc a0 = Some \<lparr>chan_cap = 2, chan_len = 2\<rparr>"
    using a0(2,3) by (simp add: no)
  have facts: "map t_pc ?ts = [Finished Panicked, InMain]"
    "map (\<lambda>t. count_list (t_tr t) EvAcquire) ?ts = [1, 1]"
    "map (\<lambda>t. count_list (t_tr t) EvRelease) ?ts = [1, 0]"
    "held ?ts = 1"
    by (simp_all add: held_def holding_def)
  have chv: "chan_cap ch = 2" "chan_len ch = 1"
    using ch(1) by auto
  show ?thesis
    using h a0(1) c0 run a0m ch facts chv
    by (intro conjI exI [of _ a0] exI [of _ "?am\<lparr>cc := Some \<lparr>chan_cap = 2, chan_len = 1\<rparr>\<rparr>"]
          exI [of _ ?ts] exI [of _ ch]) simp_all
qed

end
